theory Spec2Isabelle
  imports Main "HOL-Library.Word"
begin

section \<open>Work items\<close>

text \<open>
  A shallow embedding of \<^verbatim>\<open>Source/Urho3D/Core/WorkQueue.cpp\<close>.
  Work items are objects shared through pointers (\<^verbatim>\<open>SharedPtr<WorkItem>\<close> in the live
  list and in the pool, \<^verbatim>\<open>WorkItem*\<close> in the queue), so the model keeps them in an
  explicit store: a pointer is an address, address 0 is the null pointer, and the lists of
  the scheduler hold addresses.
\<close>

type_synonym ptr = nat

definition nullptr :: ptr where
  "nullptr = 0"

type_synonym u32 = "32 word"

text \<open>
  \<^verbatim>\<open>WorkItem\<close> is declared in WorkQueue.h, which is not among the sources. Its fields
  here are those that WorkQueue.cpp reads and writes, with the types of their uses there:
  the three context pointers and the function pointer are addresses, \<^verbatim>\<open>priority_\<close>
  is an \<^verbatim>\<open>unsigned\<close>, the flags are booleans.
\<close>

record WorkItem =
  workFunction :: ptr
  start :: ptr
  end_ptr :: ptr
  aux :: ptr
  priority :: u32
  sendEvent :: bool
  completed :: bool
  pooled :: bool

text \<open>
  \<^verbatim>\<open>M_MAX_UNSIGNED\<close> is declared in Math/MathDefs.h, which is not among the sources.
  It is the largest value of \<^verbatim>\<open>unsigned\<close>, as its name says and as its uses in the
  sources require: it is the stencil mask that Graphics/OpenGL/OGLGraphicsImpl.h passes to
  \<^verbatim>\<open>glStencilMask\<close> to write all bits, and the result of
  \<^verbatim>\<open>Skeleton::GetBoneIndex\<close> in Graphics/Skeleton.cpp when there is no such bone,
  where 0 is the index of a bone.
\<close>

definition M_MAX_UNSIGNED :: u32 where
  "M_MAX_UNSIGNED = 0xFFFFFFFF"

section \<open>The scheduler's state\<close>

text \<open>
  The local variables of one run of \<^verbatim>\<open>ProcessItems\<close> (one worker thread):
  \<^verbatim>\<open>wasActive\<close>, the \<^verbatim>\<open>item\<close> taken from the queue while its work function
  runs outside the lock, and whether the function has returned.
\<close>

record ProcessItems_locals =
  wasActive :: bool
  item :: "ptr option"
  returned :: bool

definition ProcessItems_entry :: ProcessItems_locals where
  "ProcessItems_entry = \<lparr>wasActive = False, item = None, returned = False\<rparr>"

text \<open>
  The members of \<^verbatim>\<open>WorkQueue\<close>. \<open>heap\<close> is the store of work items. \<open>threads\<close> is the
  size of the vector of worker threads; the worker at position \<open>w\<close> of the vector was
  constructed with index \<open>w + 1\<close> and its locals are \<open>locals w\<close>. The queue mutex needs
  no field of its own: the critical sections of the workers are atomic steps of the model,
  so between steps the mutex is held only when the main thread has kept it locked in
  \<^verbatim>\<open>Pause\<close>, and that is what \<open>paused\<close> records. Three fields observe what the code
  sends out: \<open>logged\<close> (error messages), \<open>events\<close> (the items announced by
  \<^verbatim>\<open>E_WORKITEMCOMPLETED\<close>) and \<open>calls\<close> (each call of a work function, with the
  thread index it was given).
\<close>

record WorkQueue =
  heap :: "ptr \<Rightarrow> WorkItem"
  poolItems :: "ptr list"
  workItems :: "ptr list"
  queue :: "ptr list"
  threads :: nat
  locals :: "nat \<Rightarrow> ProcessItems_locals"
  shutDown :: bool
  pausing :: bool
  paused :: bool
  completing :: bool
  tolerance :: int
  lastSize :: int
  maxNonThreadedWorkMs :: int
  logged :: "string list"
  events :: "ptr list"
  calls :: "(ptr \<times> nat) list"

text \<open>The constructor, over the store \<open>h\<close> of the items that exist.\<close>

definition WorkQueue_new :: "(ptr \<Rightarrow> WorkItem) \<Rightarrow> WorkQueue" where
  "WorkQueue_new h =
     \<lparr>heap = h, poolItems = [], workItems = [], queue = [], threads = 0,
      locals = (\<lambda>w. ProcessItems_entry),
      shutDown = False, pausing = False, paused = False, completing = False,
      tolerance = 10, lastSize = 0, maxNonThreadedWorkMs = 5,
      logged = [], events = [], calls = []\<rparr>"

text \<open>
  What stops an operation: the failed \<^verbatim>\<open>assert\<close> of \<^verbatim>\<open>AddWorkItem\<close>, and the
  attempt to lock the queue mutex (a \<^verbatim>\<open>std::mutex\<close>, which is not recursive) by the
  thread that already holds it.
\<close>

datatype error = AssertionFailed | Relock

section \<open>Pause and resume\<close>

definition Pause :: "WorkQueue \<Rightarrow> WorkQueue" where
  "Pause s = (if \<not> paused s then s\<lparr>pausing := False, paused := True\<rparr> else s)"

definition Resume :: "WorkQueue \<Rightarrow> WorkQueue" where
  "Resume s = (if paused s then s\<lparr>paused := False\<rparr> else s)"

text \<open>
  \<^verbatim>\<open>CreateThreads\<close>; \<open>threading\<close> says whether \<^verbatim>\<open>URHO3D_THREADING\<close> is defined.
\<close>

definition CreateThreads :: "bool \<Rightarrow> nat \<Rightarrow> WorkQueue \<Rightarrow> WorkQueue" where
  "CreateThreads threading numThreads s =
     (if threading then
        (if threads s \<noteq> 0 then s
         else (Pause s)\<lparr>threads := numThreads, locals := (\<lambda>w. ProcessItems_entry)\<rparr>)
      else s\<lparr>logged := logged s @ [''Can not create worker threads as threading is disabled'']\<rparr>)"

section \<open>The pool\<close>

text \<open>
  \<^verbatim>\<open>GetFreeItem\<close>. When the pool is empty the code allocates: \<open>alloc\<close> is the address
  that \<^verbatim>\<open>new\<close> returns together with the value the constructor of
  \<^verbatim>\<open>WorkItem\<close> (declared in WorkQueue.h, not among the sources) gives the object.
\<close>

definition GetFreeItem :: "ptr \<times> WorkItem \<Rightarrow> WorkQueue \<Rightarrow> ptr \<times> WorkQueue" where
  "GetFreeItem alloc s =
     (case poolItems s of
        i # rest \<Rightarrow> (i, s\<lparr>poolItems := rest\<rparr>)
      | [] \<Rightarrow> (fst alloc, s\<lparr>heap := (heap s)(fst alloc := (snd alloc)\<lparr>pooled := True\<rparr>)\<rparr>))"

definition ReturnToPool :: "ptr \<Rightarrow> WorkQueue \<Rightarrow> WorkQueue" where
  "ReturnToPool i s =
     (if pooled (heap s i) then
        s\<lparr>heap := (heap s)(i := (heap s i)
              \<lparr>workFunction := nullptr, start := nullptr, end_ptr := nullptr, aux := nullptr,
               priority := M_MAX_UNSIGNED, sendEvent := False, completed := False\<rparr>),
          poolItems := poolItems s @ [i]\<rparr>
      else s)"

text \<open>
  \<^verbatim>\<open>PurgePool\<close>. \<^verbatim>\<open>difference\<close> is an \<^verbatim>\<open>int\<close> computed from a
  \<^verbatim>\<open>size_t\<close>, and the loop bound is its conversion to \<^verbatim>\<open>unsigned\<close>: both
  conversions are written out. The members \<^verbatim>\<open>tolerance_\<close> and \<^verbatim>\<open>lastSize_\<close> are
  declared in WorkQueue.h, which is not among the sources; they are integers like
  \<^verbatim>\<open>difference\<close>, with which the code compares and from which it subtracts them.
\<close>

definition to_int :: "int \<Rightarrow> int" where
  "to_int x = (x + 2 ^ 31) mod 2 ^ 32 - 2 ^ 31"

definition to_unsigned :: "int \<Rightarrow> nat" where
  "to_unsigned x = nat (x mod 2 ^ 32)"

fun PurgePool_loop :: "nat \<Rightarrow> int \<Rightarrow> int \<Rightarrow> ptr list \<Rightarrow> ptr list" where
  "PurgePool_loop i difference tol [] = []"
| "PurgePool_loop i difference tol (x # xs) =
     (if difference > tol \<and> i < to_unsigned difference
      then PurgePool_loop (i + 1) difference tol xs
      else x # xs)"

definition PurgePool :: "WorkQueue \<Rightarrow> WorkQueue" where
  "PurgePool s =
     (let currentSize = length (poolItems s);
          difference = to_int (lastSize s - int currentSize)
      in s\<lparr>poolItems := PurgePool_loop 0 difference (tolerance s) (poolItems s),
           lastSize := to_int (int currentSize)\<rparr>)"

section \<open>Submitting and removing\<close>

text \<open>
  The scan of \<^verbatim>\<open>AddWorkItem\<close> for the position of the new item: before the first
  entry whose priority is \<^verbatim>\<open><=\<close> the new item's, at the back when there is none.
\<close>

fun queue_insert :: "(ptr \<Rightarrow> WorkItem) \<Rightarrow> ptr \<Rightarrow> ptr list \<Rightarrow> ptr list" where
  "queue_insert h new [] = [new]"
| "queue_insert h new (i # rest) =
     (if priority (h i) \<le> priority (h new) then new # i # rest
      else i # queue_insert h new rest)"

definition AddWorkItem :: "ptr \<Rightarrow> WorkQueue \<Rightarrow> error + WorkQueue" where
  "AddWorkItem new s =
     (if new = nullptr then
        Inr (s\<lparr>logged := logged s @ [''Null work item submitted to the work queue'']\<rparr>)
      else if new \<in> set (workItems s) then Inl AssertionFailed
      else
        (let s1 = s\<lparr>workItems := workItems s @ [new],
                    heap := (heap s)(new := (heap s new)\<lparr>completed := False\<rparr>)\<rparr>;
             s2 = s1\<lparr>queue := queue_insert (heap s1) new (queue s1)\<rparr>
         in Inr (if threads s \<noteq> 0 then s2\<lparr>paused := False\<rparr> else s2)))"

text \<open>
  \<^verbatim>\<open>AddWorkItem\<close> above is the function of a build in which \<^verbatim>\<open>assert\<close> is active: a
  duplicate submission stops the program. With \<^verbatim>\<open>NDEBUG\<close> defined (a release build) the
  \<^verbatim>\<open>assert\<close> is compiled out, nothing tests the live list, and the function always returns:
\<close>

definition AddWorkItem_NDEBUG :: "ptr \<Rightarrow> WorkQueue \<Rightarrow> WorkQueue" where
  "AddWorkItem_NDEBUG new s =
     (if new = nullptr then
        s\<lparr>logged := logged s @ [''Null work item submitted to the work queue'']\<rparr>
      else
        (let s1 = s\<lparr>workItems := workItems s @ [new],
                    heap := (heap s)(new := (heap s new)\<lparr>completed := False\<rparr>)\<rparr>;
             s2 = s1\<lparr>queue := queue_insert (heap s1) new (queue s1)\<rparr>
         in if threads s \<noteq> 0 then s2\<lparr>paused := False\<rparr> else s2))"

text \<open>
  The body shared by \<^verbatim>\<open>RemoveWorkItem\<close> and the loop of \<^verbatim>\<open>RemoveWorkItems\<close>
  once the item was found in the queue and in the live list.
\<close>

definition remove_found :: "ptr \<Rightarrow> WorkQueue \<Rightarrow> WorkQueue" where
  "remove_found i s =
     (let s1 = s\<lparr>queue := remove1 i (queue s)\<rparr>;
          s2 = ReturnToPool i s1
      in s2\<lparr>workItems := remove1 i (workItems s2)\<rparr>)"

definition RemoveWorkItem :: "ptr \<Rightarrow> WorkQueue \<Rightarrow> error + bool \<times> WorkQueue" where
  "RemoveWorkItem i s =
     (if i = nullptr then Inr (False, s)
      else if paused s then Inl Relock
      else if i \<in> set (queue s) \<and> i \<in> set (workItems s) then Inr (True, remove_found i s)
      else Inr (False, s))"

fun RemoveWorkItems_loop :: "ptr list \<Rightarrow> nat \<Rightarrow> WorkQueue \<Rightarrow> nat \<times> WorkQueue" where
  "RemoveWorkItems_loop [] removed s = (removed, s)"
| "RemoveWorkItems_loop (i # rest) removed s =
     (if i \<in> set (queue s) \<and> i \<in> set (workItems s)
      then RemoveWorkItems_loop rest (removed + 1) (remove_found i s)
      else RemoveWorkItems_loop rest removed s)"

definition RemoveWorkItems :: "ptr list \<Rightarrow> WorkQueue \<Rightarrow> error + nat \<times> WorkQueue" where
  "RemoveWorkItems items s =
     (if paused s then Inl Relock else Inr (RemoveWorkItems_loop items 0 s))"

section \<open>Executing\<close>

text \<open>
  \<^verbatim>\<open>item->workFunction_(item, threadIndex); item->completed_ = true;\<close>
  The work function is the submitter's code: the model records the call and takes it to
  return without touching the scheduler.
\<close>

definition execute :: "ptr \<Rightarrow> nat \<Rightarrow> WorkQueue \<Rightarrow> WorkQueue" where
  "execute i threadIndex s =
     s\<lparr>calls := calls s @ [(i, threadIndex)],
       heap := (heap s)(i := (heap s i)\<lparr>completed := True\<rparr>)\<rparr>"

text \<open>
  One atomic step of the worker at position \<open>w\<close> in \<^verbatim>\<open>ProcessItems\<close>. A worker
  that has taken an item from the queue calls its work function, outside the lock, and
  marks it completed. A worker at the head of the loop runs the iteration up to the release
  of the mutex: it returns on \<^verbatim>\<open>shutDown_\<close>, sleeps while \<^verbatim>\<open>pausing_\<close> is set
  and it was idle, and otherwise locks the mutex and takes the front of the queue if there
  is one. \<open>None\<close>: the worker cannot move (there is no such worker, its function has
  returned, or it waits in \<^verbatim>\<open>queueMutex_.lock()\<close> for the main thread).
\<close>

definition ProcessItems_step :: "nat \<Rightarrow> WorkQueue \<Rightarrow> WorkQueue option" where
  "ProcessItems_step w s =
     (let l = locals s w in
      if \<not> w < threads s then None
      else case item l of
        Some i \<Rightarrow> Some ((execute i (w + 1) s)\<lparr>locals := (locals s)(w := l\<lparr>item := None\<rparr>)\<rparr>)
      | None \<Rightarrow>
          if returned l then None
          else if shutDown s then Some (s\<lparr>locals := (locals s)(w := l\<lparr>returned := True\<rparr>)\<rparr>)
          else if pausing s \<and> \<not> wasActive l then Some s
          else if paused s then None
          else (case queue s of
                  i # rest \<Rightarrow>
                    Some (s\<lparr>queue := rest,
                            locals := (locals s)(w := l\<lparr>wasActive := True, item := Some i\<rparr>)\<rparr>)
                | [] \<Rightarrow> Some (s\<lparr>locals := (locals s)(w := l\<lparr>wasActive := False\<rparr>)\<rparr>)))"

definition worker_tick :: "nat \<Rightarrow> WorkQueue \<Rightarrow> WorkQueue" where
  "worker_tick w s = (case ProcessItems_step w s of Some s' \<Rightarrow> s' | None \<Rightarrow> s)"

section \<open>Completion\<close>

fun IsCompleted_loop :: "u32 \<Rightarrow> (ptr \<Rightarrow> WorkItem) \<Rightarrow> ptr list \<Rightarrow> bool" where
  "IsCompleted_loop p h [] = True"
| "IsCompleted_loop p h (i # rest) =
     (if priority (h i) \<ge> p \<and> \<not> completed (h i) then False else IsCompleted_loop p h rest)"

definition IsCompleted :: "u32 \<Rightarrow> WorkQueue \<Rightarrow> bool" where
  "IsCompleted p s = IsCompleted_loop p (heap s) (workItems s)"

text \<open>
  The loop of \<^verbatim>\<open>PurgeCompleted\<close> over the live list: it returns the entries it keeps,
  and the state with the purged items announced and returned to the pool. The event is
  recorded in \<open>events\<close>; who listens to it is outside the scheduler.
\<close>

fun PurgeCompleted_loop :: "u32 \<Rightarrow> ptr list \<Rightarrow> WorkQueue \<Rightarrow> ptr list \<times> WorkQueue" where
  "PurgeCompleted_loop p [] s = ([], s)"
| "PurgeCompleted_loop p (i # rest) s =
     (if completed (heap s i) \<and> priority (heap s i) \<ge> p then
        PurgeCompleted_loop p rest
          (ReturnToPool i (if sendEvent (heap s i) then s\<lparr>events := events s @ [i]\<rparr> else s))
      else (let (kept, s') = PurgeCompleted_loop p rest s in (i # kept, s')))"

definition PurgeCompleted :: "u32 \<Rightarrow> WorkQueue \<Rightarrow> WorkQueue" where
  "PurgeCompleted p s =
     (let (kept, s') = PurgeCompleted_loop p (workItems s) s in s'\<lparr>workItems := kept\<rparr>)"

text \<open>The loop of \<^verbatim>\<open>Complete\<close> when there are no worker threads.\<close>

function Complete_loop :: "u32 \<Rightarrow> WorkQueue \<Rightarrow> WorkQueue" where
  "Complete_loop p s =
     (case queue s of
        [] \<Rightarrow> s
      | i # rest \<Rightarrow>
          if priority (heap s i) \<ge> p then Complete_loop p (execute i 0 (s\<lparr>queue := rest\<rparr>))
          else s)"
  by pat_completeness auto
termination
  by (relation "measure (\<lambda>(p, s). length (queue s))") (auto simp: execute_def)

text \<open>
  With worker threads \<^verbatim>\<open>Complete\<close> runs beside them, and its second loop only waits
  for them. The interleaving is an input of the model: a list of ticks, each saying which
  thread takes its next step. \<open>None\<close>: the ticks end while \<^verbatim>\<open>Complete\<close> is still in
  one of its loops.
\<close>

datatype tick = Main | Worker nat

fun Complete_wait :: "u32 \<Rightarrow> tick list \<Rightarrow> WorkQueue \<Rightarrow> WorkQueue option" where
  "Complete_wait p [] s = None"
| "Complete_wait p (Worker w # ts) s = Complete_wait p ts (worker_tick w s)"
| "Complete_wait p (Main # ts) s = (if IsCompleted p s then Some s else Complete_wait p ts s)"

fun Complete_drain :: "u32 \<Rightarrow> tick list \<Rightarrow> WorkQueue \<Rightarrow> WorkQueue option" where
  "Complete_drain p [] s = None"
| "Complete_drain p (Worker w # ts) s = Complete_drain p ts (worker_tick w s)"
| "Complete_drain p (Main # ts) s =
     (case queue s of
        [] \<Rightarrow> Complete_wait p ts s
      | i # rest \<Rightarrow>
          if priority (heap s i) \<ge> p then Complete_drain p ts (execute i 0 (s\<lparr>queue := rest\<rparr>))
          else Complete_wait p ts s)"

definition Complete :: "u32 \<Rightarrow> tick list \<Rightarrow> WorkQueue \<Rightarrow> WorkQueue option" where
  "Complete p ts s =
     (let s0 = s\<lparr>completing := True\<rparr> in
      if threads s0 \<noteq> 0 then
        (case Complete_drain p ts (Resume s0) of
           None \<Rightarrow> None
         | Some s1 \<Rightarrow>
             Some ((PurgeCompleted p (if queue s1 = [] then Pause s1 else s1))
                     \<lparr>completing := False\<rparr>))
      else Some ((PurgeCompleted p (Complete_loop p s0))\<lparr>completing := False\<rparr>))"

section \<open>The frame hook\<close>

text \<open>
  The loop of \<^verbatim>\<open>HandleBeginFrame\<close>. The timer is an input: \<open>usec k\<close> is what
  \<^verbatim>\<open>timer.GetUSec(false)\<close> returns at the loop test that follows \<open>k\<close> executed items.
\<close>

function HandleBeginFrame_loop :: "(nat \<Rightarrow> int) \<Rightarrow> nat \<Rightarrow> WorkQueue \<Rightarrow> WorkQueue" where
  "HandleBeginFrame_loop usec k s =
     (case queue s of
        [] \<Rightarrow> s
      | i # rest \<Rightarrow>
          if usec k < maxNonThreadedWorkMs s * 1000
          then HandleBeginFrame_loop usec (k + 1) (execute i 0 (s\<lparr>queue := rest\<rparr>))
          else s)"
  by pat_completeness auto
termination
  by (relation "measure (\<lambda>(usec, k, s). length (queue s))") (auto simp: execute_def)

definition HandleBeginFrame :: "(nat \<Rightarrow> int) \<Rightarrow> WorkQueue \<Rightarrow> WorkQueue" where
  "HandleBeginFrame usec s =
     PurgePool (PurgeCompleted 0
       (if threads s = 0 \<and> queue s \<noteq> [] then HandleBeginFrame_loop usec 0 s else s))"

fun frames :: "(nat \<Rightarrow> int) list \<Rightarrow> WorkQueue \<Rightarrow> WorkQueue" where
  "frames [] s = s"
| "frames (usec # rest) s = frames rest (HandleBeginFrame usec s)"

section \<open>Runs of the scheduler\<close>

text \<open>
  The operations a run is made of: the calls of the main thread, one iteration of the
  loops in which the main thread takes the front item and runs it (in \<^verbatim>\<open>Complete\<close>
  and in \<^verbatim>\<open>HandleBeginFrame\<close>), the steps of the workers,
  and the submitter writing the fields of an item it owns (one that is not in the live
  list; \<^verbatim>\<open>pooled_\<close> is private to the scheduler and keeps its value). When
  \<^verbatim>\<open>GetFreeItem\<close> allocates, the new object is not null and is none of the live items.
  An operation that stops, or a worker that cannot move, ends the run with \<open>None\<close>.
\<close>

datatype operation =
    OpCreateThreads bool nat
  | OpGetFreeItem ptr WorkItem
  | OpWrite ptr WorkItem
  | OpAddWorkItem ptr
  | OpRemoveWorkItem ptr
  | OpRemoveWorkItems "ptr list"
  | OpPause
  | OpResume
  | OpComplete u32 "tick list"
  | OpPurgeCompleted u32
  | OpPurgePool
  | OpBeginFrame "nat \<Rightarrow> int"
  | OpDequeue
  | OpWorker nat

definition sum_option :: "'e + 'a \<Rightarrow> 'a option" where
  "sum_option r = (case r of Inl e \<Rightarrow> None | Inr x \<Rightarrow> Some x)"

fun apply_op :: "operation \<Rightarrow> WorkQueue \<Rightarrow> WorkQueue option" where
  "apply_op (OpCreateThreads threading n) s = Some (CreateThreads threading n s)"
| "apply_op (OpGetFreeItem a v) s =
     (if poolItems s = [] \<and> (a = nullptr \<or> a \<in> set (workItems s)) then None
      else Some (snd (GetFreeItem (a, v) s)))"
| "apply_op (OpWrite a v) s =
     (if a \<in> set (workItems s) then None
      else Some (s\<lparr>heap := (heap s)(a := v\<lparr>pooled := pooled (heap s a)\<rparr>)\<rparr>))"
| "apply_op (OpAddWorkItem a) s = sum_option (AddWorkItem a s)"
| "apply_op (OpRemoveWorkItem a) s = map_option snd (sum_option (RemoveWorkItem a s))"
| "apply_op (OpRemoveWorkItems as) s = map_option snd (sum_option (RemoveWorkItems as s))"
| "apply_op OpPause s = Some (Pause s)"
| "apply_op OpResume s = Some (Resume s)"
| "apply_op (OpComplete p ts) s = Complete p ts s"
| "apply_op (OpPurgeCompleted p) s = Some (PurgeCompleted p s)"
| "apply_op OpPurgePool s = Some (PurgePool s)"
| "apply_op (OpBeginFrame usec) s = Some (HandleBeginFrame usec s)"
| "apply_op OpDequeue s =
     (case queue s of [] \<Rightarrow> None | i # rest \<Rightarrow> Some (execute i 0 (s\<lparr>queue := rest\<rparr>)))"
| "apply_op (OpWorker w) s = ProcessItems_step w s"

fun run :: "operation list \<Rightarrow> WorkQueue \<Rightarrow> WorkQueue option" where
  "run [] s = Some s"
| "run (x # xs) s = (case apply_op x s of None \<Rightarrow> None | Some s' \<Rightarrow> run xs s')"

definition reachable :: "WorkQueue \<Rightarrow> bool" where
  "reachable s = (\<exists>h ops. run ops (WorkQueue_new h) = Some s)"

text \<open>
  The runs in which the submitter leaves the items of the free list alone: it neither writes
  nor submits an item while it is in the free list (it first takes it with
  \<^verbatim>\<open>GetFreeItem\<close>). The scheduler cannot enforce this, since the submitter keeps its
  pointer to an item that was recycled.
\<close>

fun permitted :: "operation \<Rightarrow> WorkQueue \<Rightarrow> bool" where
  "permitted (OpWrite a v) s = (a \<notin> set (poolItems s))"
| "permitted (OpAddWorkItem a) s = (a \<notin> set (poolItems s))"
| "permitted x s = True"

fun run_owned :: "operation list \<Rightarrow> WorkQueue \<Rightarrow> WorkQueue option" where
  "run_owned [] s = Some s"
| "run_owned (x # xs) s =
     (if permitted x s
      then (case apply_op x s of None \<Rightarrow> None | Some s' \<Rightarrow> run_owned xs s')
      else None)"

definition reachable_owned :: "WorkQueue \<Rightarrow> bool" where
  "reachable_owned s = (\<exists>h ops. run_owned ops (WorkQueue_new h) = Some s)"

section \<open>The state invariant\<close>

definition queue_sorted :: "WorkQueue \<Rightarrow> bool" where
  "queue_sorted s =
     sorted_wrt (\<lambda>a b. priority (heap s b) \<le> priority (heap s a)) (queue s)"

definition queued_live :: "WorkQueue \<Rightarrow> bool" where
  "queued_live s = (set (queue s) \<subseteq> set (workItems s))"

definition queued_pending :: "WorkQueue \<Rightarrow> bool" where
  "queued_pending s = (\<forall>x \<in> set (queue s). \<not> completed (heap s x))"

text \<open>
  What the workers hold: every item a worker took from the queue is live, is no longer
  queued, is not completed, and is held by that worker only.
\<close>

definition executing_ok :: "WorkQueue \<Rightarrow> bool" where
  "executing_ok s =
     (\<forall>w x. item (locals s w) = Some x \<longrightarrow>
        w < threads s \<and> x \<in> set (workItems s) \<and> x \<notin> set (queue s) \<and>
        \<not> completed (heap s x) \<and> (\<forall>v. item (locals s v) = Some x \<longrightarrow> v = w))"

definition pending_tracked :: "WorkQueue \<Rightarrow> bool" where
  "pending_tracked s =
     (\<forall>x \<in> set (workItems s). \<not> completed (heap s x) \<longrightarrow>
        x \<in> set (queue s) \<or> (\<exists>w. item (locals s w) = Some x))"

definition wq_inv :: "WorkQueue \<Rightarrow> bool" where
  "wq_inv s =
     (queue_sorted s \<and> queued_live s \<and> queued_pending s \<and>
      distinct (queue s) \<and> distinct (workItems s) \<and> nullptr \<notin> set (workItems s) \<and>
      executing_ok s \<and> pending_tracked s)"

section \<open>Example runs\<close>

text \<open>
  What a run shows: the items whose work functions were called, in the order of the calls
  (nothing when the run ended early).
\<close>

definition call_order :: "WorkQueue option \<Rightarrow> ptr list" where
  "call_order r = (case r of None \<Rightarrow> [] | Some s \<Rightarrow> map fst (calls s))"

text \<open>
  A store in which the items at addresses 1, 2, 3 and 4 have the priorities 5, 1, 5 and 3.
\<close>

definition items_5153 :: "ptr \<Rightarrow> WorkItem" where
  "items_5153 a =
     \<lparr>workFunction = 7, start = 0, end_ptr = 0, aux = 0,
      priority = (if a = 1 then 5 else if a = 2 then 1 else if a = 3 then 5 else 3),
      sendEvent = False, completed = False, pooled = False\<rparr>"

text \<open>
  A store in which item 1 is pooled and carries a context, a priority and the request for a
  completion event; the other items are not pooled.
\<close>

definition items_pooled :: "ptr \<Rightarrow> WorkItem" where
  "items_pooled a =
     \<lparr>workFunction = 7, start = 100, end_ptr = 200, aux = 300,
      priority = (if a = 1 then 2 else 5),
      sendEvent = True, completed = False, pooled = (a = 1)\<rparr>"

text \<open>
  A store in which the items 1, 2, 3 and 4 have the priorities 5, 5, 1 and 3, items 1 and 3
  are completed, and item 1 is pooled and asks for a completion event.
\<close>

definition items_done :: "ptr \<Rightarrow> WorkItem" where
  "items_done a =
     \<lparr>workFunction = 7, start = 0, end_ptr = 0, aux = 0,
      priority = (if a = 1 then 5 else if a = 2 then 5 else if a = 3 then 1 else 3),
      sendEvent = (a = 1), completed = (a = 1 \<or> a = 3), pooled = (a = 1)\<rparr>"

text \<open>
  The state after \<^verbatim>\<open>Pause()\<close> and \<^verbatim>\<open>AddWorkItem\<close> of item 1 on a new scheduler
  without worker threads.
\<close>

definition paused_with_item :: WorkQueue where
  "paused_with_item = the (run [OpPause, OpAddWorkItem 1] (WorkQueue_new items_5153))"

text \<open>What a run shows of its last state: whether it is paused, whether an item is completed.\<close>

definition is_paused :: "WorkQueue option \<Rightarrow> bool" where
  "is_paused r = (case r of None \<Rightarrow> False | Some s \<Rightarrow> paused s)"

definition is_completed :: "WorkQueue option \<Rightarrow> ptr \<Rightarrow> bool" where
  "is_completed r i = (case r of None \<Rightarrow> False | Some s \<Rightarrow> completed (heap s i))"

text \<open>A timer for the frame hook: every work function takes 3 ms.\<close>

definition timer_3ms :: "nat \<Rightarrow> int" where
  "timer_3ms k = 3000 * int k"

section \<open>Abbreviations of the proofs\<close>

text \<open>The value \<^verbatim>\<open>ReturnToPool\<close> leaves in a pooled item.\<close>

definition recycled :: WorkItem where
  "recycled =
     \<lparr>workFunction = nullptr, start = nullptr, end_ptr = nullptr, aux = nullptr,
      priority = M_MAX_UNSIGNED, sendEvent = False, completed = False, pooled = True\<rparr>"

text \<open>
  The free list is clean: each of its items has the values that \<^verbatim>\<open>ReturnToPool\<close> left
  and is not in the live list.
\<close>

definition pool_clean :: "WorkQueue \<Rightarrow> bool" where
  "pool_clean s = (\<forall>j \<in> set (poolItems s). heap s j = recycled \<and> j \<notin> set (workItems s))"

text \<open>The test of \<^verbatim>\<open>PurgeCompleted\<close> on an item of the store.\<close>

definition purged :: "u32 \<Rightarrow> (ptr \<Rightarrow> WorkItem) \<Rightarrow> ptr \<Rightarrow> bool" where
  "purged p h i = (completed (h i) \<and> p \<le> priority (h i))"

text \<open>What \<^verbatim>\<open>PurgeCompleted\<close> does with an item that passes the test.\<close>

definition purge_item :: "ptr \<Rightarrow> WorkQueue \<Rightarrow> WorkQueue" where
  "purge_item i s =
     ReturnToPool i (if sendEvent (heap s i) then s\<lparr>events := events s @ [i]\<rparr> else s)"

text \<open>
  How many items one run of the loop of \<^verbatim>\<open>HandleBeginFrame\<close> executes: the queued
  items before the first test at which the timer has reached the budget.
\<close>

fun frame_count :: "(nat \<Rightarrow> int) \<Rightarrow> nat \<Rightarrow> int \<Rightarrow> ptr list \<Rightarrow> nat" where
  "frame_count usec k budget [] = 0"
| "frame_count usec k budget (i # rest) =
     (if usec k < budget then Suc (frame_count usec (k + 1) budget rest) else 0)"

text \<open>
  Two facts about the second loop of \<^verbatim>\<open>Complete(p)\<close>: no queued item has a priority
  of at least \<open>p\<close>, and the items of such a priority that workers hold are held by the
  workers of a given list.
\<close>

definition drained :: "u32 \<Rightarrow> WorkQueue \<Rightarrow> bool" where
  "drained p s = (\<forall>x \<in> set (queue s). \<not> p \<le> priority (heap s x))"

definition held_by :: "u32 \<Rightarrow> nat list \<Rightarrow> WorkQueue \<Rightarrow> bool" where
  "held_by p ws s =
     (\<forall>w x. item (locals s w) = Some x \<and> p \<le> priority (heap s x) \<longrightarrow> w \<in> set ws)"

text \<open>The three parts of the invariant that the specification names.\<close>

definition state_invariant :: "WorkQueue \<Rightarrow> bool" where
  "state_invariant s = (queue_sorted s \<and> queued_live s \<and> queued_pending s)"

declare Complete_loop.simps [simp del] HandleBeginFrame_loop.simps [simp del]

section \<open>Insertion order\<close>

lemmas eval_defs = WorkQueue_new_def AddWorkItem_def sum_option_def nullptr_def Complete_def
  PurgeCompleted_def ReturnToPool_def execute_def call_order_def word_le_nat_alt
  ProcessItems_entry_def

lemmas thread_defs = CreateThreads_def Pause_def Resume_def ProcessItems_step_def worker_tick_def
  IsCompleted_def Let_def

lemma queue_insert_split:
  "queue_insert h new q =
     takeWhile (\<lambda>i. priority (h new) < priority (h i)) q @
     new # dropWhile (\<lambda>i. priority (h new) < priority (h i)) q"
  by (induction q) (auto simp: not_less)

lemma queue_insert_heap_cong:
  "(\<And>a. priority (h a) = priority (h' a)) \<Longrightarrow> queue_insert h new q = queue_insert h' new q"
  by (induction q) auto

text \<open>
  Claim C1, as the specification states it, fails. Items 1, 2, 3 and 4 are submitted in
  this order with the priorities 5, 1, 5 and 3 and then drained by \<^verbatim>\<open>Complete(0)\<close>
  without worker threads: the priorities are served in the order 5, 5, 3, 1, but item 3, the
  second one submitted with priority 5, runs before item 1, the first one. Among equal
  priorities the order of submission is reversed, not preserved.
\<close>

theorem AddWorkItem_order_counterexample:
  "call_order (run [OpAddWorkItem 1, OpAddWorkItem 2, OpAddWorkItem 3, OpAddWorkItem 4,
       OpComplete 0 []] (WorkQueue_new items_5153)) = [3, 1, 4, 2]"
  by (simp add: eval_defs Complete_loop.simps items_5153_def)

lemma AddWorkItem_inserts:
  assumes "new \<noteq> nullptr" and "new \<notin> set (workItems s)"
  shows "\<exists>s' before after.
           AddWorkItem new s = Inr s' \<and> queue s = before @ after \<and>
           queue s' = before @ new # after \<and>
           (\<forall>i \<in> set before. priority (heap s new) < priority (heap s i)) \<and>
           (after \<noteq> [] \<longrightarrow> priority (heap s (hd after)) \<le> priority (heap s new))"
proof -
  let ?P = "\<lambda>i. priority (heap s new) < priority (heap s i)"
  let ?h1 = "(heap s)(new := (heap s new)\<lparr>completed := False\<rparr>)"
  have "queue_insert ?h1 new (queue s) = queue_insert (heap s) new (queue s)"
    by (rule queue_insert_heap_cong) simp
  then have ins:
    "queue_insert ?h1 new (queue s) = takeWhile ?P (queue s) @ new # dropWhile ?P (queue s)"
    by (simp only: queue_insert_split)
  have q: "\<exists>s'. AddWorkItem new s = Inr s' \<and>
             queue s' = takeWhile ?P (queue s) @ new # dropWhile ?P (queue s)"
    using assms ins by (simp add: AddWorkItem_def Let_def)
  have before: "\<forall>i \<in> set (takeWhile ?P (queue s)). ?P i"
    by (auto dest: set_takeWhileD)
  have after: "dropWhile ?P (queue s) \<noteq> [] \<longrightarrow>
                 priority (heap s (hd (dropWhile ?P (queue s)))) \<le> priority (heap s new)"
    using hd_dropWhile [of ?P "queue s"] by (auto simp: not_less)
  from q obtain s' where s': "AddWorkItem new s = Inr s'"
    "queue s' = takeWhile ?P (queue s) @ new # dropWhile ?P (queue s)" by blast
  show ?thesis
    apply (rule exI [of _ s'])
    apply (rule exI [of _ "takeWhile ?P (queue s)"])
    apply (rule exI [of _ "dropWhile ?P (queue s)"])
    using s' before after by simp
qed

text \<open>
  Claim C1, amended. \<^verbatim>\<open>AddWorkItem\<close> of an item that is not null and not in the live
  list succeeds and inserts it into the queue before the first entry whose priority is
  lower than or equal to the new item's (at the back when there is none): every entry before
  the new item has a strictly higher priority, the entry after it, if any, does not, and the
  other entries keep their order. So entries of strictly higher priority are served first
  and, among equal priorities, the item submitted last is served first: the items 1, 2, 3
  and 4, submitted with the priorities 5, 1, 5 and 3, are executed in the order 3, 1, 4, 2,
  that is by priorities 5, 5, 3, 1 with the two items of priority 5 in reverse order of
  submission.
\<close>

theorem AddWorkItem_position:
  "(new \<noteq> nullptr \<and> new \<notin> set (workItems s) \<longrightarrow>
      (\<exists>s' before after.
         AddWorkItem new s = Inr s' \<and> queue s = before @ after \<and>
         queue s' = before @ new # after \<and>
         (\<forall>i \<in> set before. priority (heap s new) < priority (heap s i)) \<and>
         (after \<noteq> [] \<longrightarrow> priority (heap s (hd after)) \<le> priority (heap s new)))) \<and>
   call_order (run [OpAddWorkItem 1, OpAddWorkItem 2, OpAddWorkItem 3, OpAddWorkItem 4,
       OpComplete 0 []] (WorkQueue_new items_5153)) = [3, 1, 4, 2] \<and>
   map (\<lambda>i. priority (items_5153 i)) [1, 2, 3, 4] = [5, 1, 5, 3] \<and>
   map (\<lambda>i. priority (items_5153 i)) [3, 1, 4, 2] = [5, 5, 3, 1]"
proof (intro conjI impI)
  assume "new \<noteq> nullptr \<and> new \<notin> set (workItems s)"
  then show "\<exists>s' before after.
         AddWorkItem new s = Inr s' \<and> queue s = before @ after \<and>
         queue s' = before @ new # after \<and>
         (\<forall>i \<in> set before. priority (heap s new) < priority (heap s i)) \<and>
         (after \<noteq> [] \<longrightarrow> priority (heap s (hd after)) \<le> priority (heap s new))"
    using AddWorkItem_inserts [of new s] by blast
qed (simp_all add: eval_defs Complete_loop.simps items_5153_def)

theorem AddWorkItem_position_witness:
  "\<exists>s'. AddWorkItem 3 ((WorkQueue_new items_5153)\<lparr>workItems := [1, 2], queue := [1, 2]\<rparr>)
          = Inr s' \<and> queue s' = [3, 1, 2]"
proof -
  let ?s = "(WorkQueue_new items_5153)\<lparr>workItems := [1, 2], queue := [1, 2]\<rparr>"
  have "(3::nat) \<noteq> nullptr \<and> 3 \<notin> set (workItems ?s)"
    by (simp add: nullptr_def WorkQueue_new_def)
  with AddWorkItem_position [of 3 ?s] obtain s' before after where
    r: "AddWorkItem 3 ?s = Inr s'" "queue ?s = before @ after"
       "queue s' = before @ 3 # after" by blast
  have "queue s' = [3, 1, 2]" using r(1) by (auto simp: eval_defs items_5153_def)
  with r(1) show ?thesis by blast
qed

section \<open>Runs and the loops of the main thread\<close>

lemma reachableI: "run ops (WorkQueue_new h) = Some s \<Longrightarrow> reachable s"
  by (auto simp: reachable_def)

lemma reachable_step: "reachable s \<Longrightarrow> apply_op x s = Some s' \<Longrightarrow> reachable s'"
proof -
  assume "reachable s" and x: "apply_op x s = Some s'"
  then obtain h ops where r: "run ops (WorkQueue_new h) = Some s" by (auto simp: reachable_def)
  have "run (ops @ [x]) t = Some s'" if "run ops t = Some s" for t
    using that x by (induction ops arbitrary: t) (auto split: option.splits)
  then show ?thesis using r by (auto simp: reachable_def)
qed

lemma Complete_loop_Nil: "queue s = [] \<Longrightarrow> Complete_loop p s = s"
  by (simp add: Complete_loop.simps [of p s])

lemma Complete_loop_Cons:
  "queue s = i # rest \<Longrightarrow>
     Complete_loop p s =
       (if p \<le> priority (heap s i) then Complete_loop p (execute i 0 (s\<lparr>queue := rest\<rparr>)) else s)"
  by (simp add: Complete_loop.simps [of p s])

lemma HandleBeginFrame_loop_Nil: "queue s = [] \<Longrightarrow> HandleBeginFrame_loop usec k s = s"
  by (simp add: HandleBeginFrame_loop.simps [of usec k s])

lemma HandleBeginFrame_loop_Cons:
  "queue s = i # rest \<Longrightarrow>
     HandleBeginFrame_loop usec k s =
       (if usec k < maxNonThreadedWorkMs s * 1000
        then HandleBeginFrame_loop usec (k + 1) (execute i 0 (s\<lparr>queue := rest\<rparr>)) else s)"
  by (simp add: HandleBeginFrame_loop.simps [of usec k s])

section \<open>Returning items to the pool\<close>

lemma M_MAX_UNSIGNED_greatest: "p \<le> M_MAX_UNSIGNED"
proof -
  have e: "(0xFFFFFFFF :: u32) = - 1" by simp
  show ?thesis unfolding M_MAX_UNSIGNED_def e by (rule word_n1_ge)
qed

lemma ReturnToPool_pooled:
  "pooled (heap s i) \<Longrightarrow>
     ReturnToPool i s = s\<lparr>heap := (heap s)(i := recycled), poolItems := poolItems s @ [i]\<rparr>"
  by (cases "heap s i") (simp add: ReturnToPool_def recycled_def)

lemma ReturnToPool_heap:
  "heap (ReturnToPool i s) = (if pooled (heap s i) then (heap s)(i := recycled) else heap s)"
  by (cases "heap s i") (simp add: ReturnToPool_def recycled_def)

lemma ReturnToPool_poolItems:
  "poolItems (ReturnToPool i s) = (if pooled (heap s i) then poolItems s @ [i] else poolItems s)"
  by (simp add: ReturnToPool_def)

section \<open>Trimming the pool\<close>

lemma PurgePool_loop_drop:
  "PurgePool_loop i d tol xs = (if tol < d then drop (to_unsigned d - i) xs else xs)"
proof (induction xs arbitrary: i)
  case Nil
  then show ?case by simp
next
  case (Cons x xs)
  show ?case
  proof (cases "tol < d \<and> i < to_unsigned d")
    case True
    then have "to_unsigned d - i = Suc (to_unsigned d - (i + 1))" by arith
    with True Cons show ?thesis by simp
  next
    case False
    then show ?thesis by auto
  qed
qed

lemma to_int_id: "- (2 ^ 31) \<le> x \<Longrightarrow> x < 2 ^ 31 \<Longrightarrow> to_int x = x"
  by (simp add: to_int_def)

lemma to_unsigned_nat: "0 \<le> x \<Longrightarrow> x < 2 ^ 32 \<Longrightarrow> to_unsigned x = nat x"
  by (simp add: to_unsigned_def)

text \<open>
  Claim C9. With the tolerance 10 that the constructor sets, and sizes in the range of
  \<^verbatim>\<open>int\<close>, \<^verbatim>\<open>PurgePool\<close> compares the size recorded at the last purge with the size
  of the free list on entry. If the list has not shrunk by more than 10 it is left as it
  is; otherwise entries are popped from its front, as many as the difference (or all of
  them, when there are fewer), never more than the difference. In both cases the size on
  entry, measured before any entry is removed, is recorded for the next purge, and nothing
  else changes.
\<close>

theorem PurgePool_hysteresis:
  assumes tol: "tolerance s = 10"
    and last: "0 \<le> lastSize s" "lastSize s < 2 ^ 31"
    and len: "int (length (poolItems s)) < 2 ^ 31"
  shows "(lastSize s - int (length (poolItems s)) \<le> 10 \<longrightarrow>
            poolItems (PurgePool s) = poolItems s) \<and>
         (10 < lastSize s - int (length (poolItems s)) \<longrightarrow>
            poolItems (PurgePool s) =
              drop (nat (lastSize s - int (length (poolItems s)))) (poolItems s)) \<and>
         int (length (poolItems s)) - int (length (poolItems (PurgePool s)))
            \<le> max 0 (lastSize s - int (length (poolItems s))) \<and>
         lastSize (PurgePool s) = int (length (poolItems s)) \<and>
         PurgePool s = s\<lparr>poolItems := poolItems (PurgePool s), lastSize := lastSize (PurgePool s)\<rparr>"
proof -
  let ?n = "length (poolItems s)"
  let ?d = "lastSize s - int ?n"
  have n: "int ?n < 2 ^ 31" using len .
  have d: "to_int ?d = ?d" using last n by (intro to_int_id) auto
  have c: "to_int (int ?n) = int ?n" using n by (intro to_int_id) auto
  have u: "0 \<le> ?d \<Longrightarrow> to_unsigned ?d = nat ?d" using last by (intro to_unsigned_nat) auto
  have pool: "poolItems (PurgePool s) = (if 10 < ?d then drop (nat ?d) (poolItems s) else poolItems s)"
    using u by (simp add: PurgePool_def Let_def d tol PurgePool_loop_drop)
  have lastS: "lastSize (PurgePool s) = int ?n"
    by (simp add: PurgePool_def Let_def c)
  have rest: "PurgePool s = s\<lparr>poolItems := poolItems (PurgePool s), lastSize := lastSize (PurgePool s)\<rparr>"
    by (simp add: PurgePool_def Let_def)
  show ?thesis using pool lastS rest by auto
qed

theorem PurgePool_hysteresis_witness:
  "poolItems (PurgePool ((WorkQueue_new items_pooled)
      \<lparr>poolItems := [1, 2, 3, 4, 5, 6, 7, 8, 9, 10, 11, 12, 13, 14], lastSize := 26\<rparr>)) = [13, 14] \<and>
   lastSize (PurgePool ((WorkQueue_new items_pooled)
      \<lparr>poolItems := [1, 2, 3, 4, 5, 6, 7, 8, 9, 10, 11, 12, 13, 14], lastSize := 26\<rparr>)) = 14"
proof -
  let ?s = "(WorkQueue_new items_pooled)
      \<lparr>poolItems := [1, 2, 3, 4, 5, 6, 7, 8, 9, 10, 11, 12, 13, 14], lastSize := 26\<rparr>"
  have h: "tolerance ?s = 10" "0 \<le> lastSize ?s" "lastSize ?s < 2 ^ 31"
    "int (length (poolItems ?s)) < 2 ^ 31"
    by (simp_all add: WorkQueue_new_def)
  from PurgePool_hysteresis [OF h]
  have "poolItems (PurgePool ?s) = drop (nat (lastSize ?s - int (length (poolItems ?s)))) (poolItems ?s)"
    "lastSize (PurgePool ?s) = int (length (poolItems ?s))"
    by (simp_all add: WorkQueue_new_def)
  then show ?thesis by (simp add: WorkQueue_new_def)
qed

section \<open>Purging completed items\<close>

lemma ReturnToPool_other:
  "ReturnToPool i s = s\<lparr>heap := heap (ReturnToPool i s), poolItems := poolItems (ReturnToPool i s)\<rparr>"
  by (simp add: ReturnToPool_def)

lemma purge_item_heap:
  "heap (purge_item i s) = (if pooled (heap s i) then (heap s)(i := recycled) else heap s)"
  by (simp add: purge_item_def ReturnToPool_heap)

lemma purge_item_poolItems:
  "poolItems (purge_item i s) = (if pooled (heap s i) then poolItems s @ [i] else poolItems s)"
  by (simp add: purge_item_def ReturnToPool_poolItems)

lemma purge_item_events:
  "events (purge_item i s) = (if sendEvent (heap s i) then events s @ [i] else events s)"
  by (simp add: purge_item_def ReturnToPool_def)

lemma purge_item_other:
  "purge_item i s = s\<lparr>heap := heap (purge_item i s), poolItems := poolItems (purge_item i s),
      events := events (purge_item i s)\<rparr>"
  by (simp add: purge_item_def ReturnToPool_def)

lemma PurgeCompleted_loop_Cons:
  "PurgeCompleted_loop p (i # rest) s =
     (if purged p (heap s) i then PurgeCompleted_loop p rest (purge_item i s)
      else (i # fst (PurgeCompleted_loop p rest s), snd (PurgeCompleted_loop p rest s)))"
  by (simp add: purged_def purge_item_def split: prod.splits)

lemma purged_cong: "h' i = h i \<Longrightarrow> purged p h' i = purged p h i"
  by (simp add: purged_def)

lemma PurgeCompleted_loop_fst:
  "distinct xs \<Longrightarrow> fst (PurgeCompleted_loop p xs s) = filter (\<lambda>i. \<not> purged p (heap s) i) xs"
proof (induction xs arbitrary: s)
  case Nil
  then show ?case by simp
next
  case (Cons i xs)
  have same: "\<And>j. j \<in> set xs \<Longrightarrow> purged p (heap (purge_item i s)) j = purged p (heap s) j"
    using Cons.prems by (intro purged_cong) (auto simp: purge_item_heap)
  have "filter (\<lambda>j. \<not> purged p (heap (purge_item i s)) j) xs = filter (\<lambda>j. \<not> purged p (heap s) j) xs"
    by (rule filter_cong) (auto simp: same)
  with Cons show ?case
    by (simp only: PurgeCompleted_loop_Cons) (simp)
qed

lemma PurgeCompleted_loop_heap:
  "distinct xs \<Longrightarrow>
     heap (snd (PurgeCompleted_loop p xs s)) j =
       (if j \<in> set xs \<and> purged p (heap s) j \<and> pooled (heap s j) then recycled else heap s j)"
proof (induction xs arbitrary: s)
  case Nil
  then show ?case by simp
next
  case (Cons i xs)
  have same: "\<And>j. j \<in> set xs \<Longrightarrow> heap (purge_item i s) j = heap s j"
    using Cons.prems by (auto simp: purge_item_heap)
  show ?case
  proof (cases "purged p (heap s) i")
    case True
    have "heap (snd (PurgeCompleted_loop p (i # xs) s)) j
            = heap (snd (PurgeCompleted_loop p xs (purge_item i s))) j"
      using True by (simp only: PurgeCompleted_loop_Cons if_True)
    also have "\<dots> = (if j \<in> set xs \<and> purged p (heap (purge_item i s)) j \<and>
                          pooled (heap (purge_item i s) j) then recycled else heap (purge_item i s) j)"
      using Cons by simp
    also have "\<dots> = (if j \<in> set (i # xs) \<and> purged p (heap s) j \<and> pooled (heap s j)
                      then recycled else heap s j)"
      using True Cons.prems same [of j] by (auto simp: purge_item_heap purged_def)
    finally show ?thesis .
  next
    case False
    then show ?thesis using Cons by (auto simp only: PurgeCompleted_loop_Cons if_False snd_conv) auto
  qed
qed

lemma PurgeCompleted_loop_poolItems:
  "distinct xs \<Longrightarrow>
     poolItems (snd (PurgeCompleted_loop p xs s)) =
       poolItems s @ filter (\<lambda>j. purged p (heap s) j \<and> pooled (heap s j)) xs"
proof (induction xs arbitrary: s)
  case Nil
  then show ?case by simp
next
  case (Cons i xs)
  have same: "\<And>j. j \<in> set xs \<Longrightarrow> heap (purge_item i s) j = heap s j"
    using Cons.prems by (auto simp: purge_item_heap)
  have f: "filter (\<lambda>j. purged p (heap (purge_item i s)) j \<and> pooled (heap (purge_item i s) j)) xs
           = filter (\<lambda>j. purged p (heap s) j \<and> pooled (heap s j)) xs"
    by (rule filter_cong) (auto simp: same purged_def)
  show ?case
  proof (cases "purged p (heap s) i")
    case True
    have "poolItems (snd (PurgeCompleted_loop p (i # xs) s))
            = poolItems (snd (PurgeCompleted_loop p xs (purge_item i s)))"
      using True by (simp only: PurgeCompleted_loop_Cons if_True)
    also have "\<dots> = poolItems (purge_item i s) @
        filter (\<lambda>j. purged p (heap (purge_item i s)) j \<and> pooled (heap (purge_item i s) j)) xs"
      using Cons by simp
    finally show ?thesis using True by (simp add: f purge_item_poolItems)
  next
    case False
    then show ?thesis using Cons by (auto simp only: PurgeCompleted_loop_Cons if_False snd_conv) auto
  qed
qed

lemma PurgeCompleted_loop_events:
  "distinct xs \<Longrightarrow>
     events (snd (PurgeCompleted_loop p xs s)) =
       events s @ filter (\<lambda>j. purged p (heap s) j \<and> sendEvent (heap s j)) xs"
proof (induction xs arbitrary: s)
  case Nil
  then show ?case by simp
next
  case (Cons i xs)
  have same: "\<And>j. j \<in> set xs \<Longrightarrow> heap (purge_item i s) j = heap s j"
    using Cons.prems by (auto simp: purge_item_heap)
  have f: "filter (\<lambda>j. purged p (heap (purge_item i s)) j \<and> sendEvent (heap (purge_item i s) j)) xs
           = filter (\<lambda>j. purged p (heap s) j \<and> sendEvent (heap s j)) xs"
    by (rule filter_cong) (auto simp: same purged_def)
  show ?case
  proof (cases "purged p (heap s) i")
    case True
    have "events (snd (PurgeCompleted_loop p (i # xs) s))
            = events (snd (PurgeCompleted_loop p xs (purge_item i s)))"
      using True by (simp only: PurgeCompleted_loop_Cons if_True)
    also have "\<dots> = events (purge_item i s) @
        filter (\<lambda>j. purged p (heap (purge_item i s)) j \<and> sendEvent (heap (purge_item i s) j)) xs"
      using Cons by simp
    finally show ?thesis using True by (simp add: f purge_item_events)
  next
    case False
    then show ?thesis using Cons by (auto simp only: PurgeCompleted_loop_Cons if_False snd_conv) auto
  qed
qed

lemma PurgeCompleted_loop_other:
  "snd (PurgeCompleted_loop p xs s) =
     s\<lparr>heap := heap (snd (PurgeCompleted_loop p xs s)),
       poolItems := poolItems (snd (PurgeCompleted_loop p xs s)),
       events := events (snd (PurgeCompleted_loop p xs s))\<rparr>"
proof (induction xs arbitrary: s)
  case Nil
  then show ?case by simp
next
  case (Cons i xs)
  show ?case
  proof (cases "purged p (heap s) i")
    case True
    have e: "snd (PurgeCompleted_loop p (i # xs) s) = snd (PurgeCompleted_loop p xs (purge_item i s))"
      using True by (simp only: PurgeCompleted_loop_Cons if_True)
    show ?thesis
      unfolding e
      by (subst Cons.IH [of "purge_item i s"]) (subst (3) purge_item_other, simp)
  next
    case False
    have e: "snd (PurgeCompleted_loop p (i # xs) s) = snd (PurgeCompleted_loop p xs s)"
      using False by (simp only: PurgeCompleted_loop_Cons if_False snd_conv)
    show ?thesis unfolding e by (rule Cons.IH)
  qed
qed

lemma PurgeCompleted_loop_frame:
  "workItems (snd (PurgeCompleted_loop p xs s)) = workItems s"
  "queue (snd (PurgeCompleted_loop p xs s)) = queue s"
  "threads (snd (PurgeCompleted_loop p xs s)) = threads s"
  "locals (snd (PurgeCompleted_loop p xs s)) = locals s"
  "shutDown (snd (PurgeCompleted_loop p xs s)) = shutDown s"
  "pausing (snd (PurgeCompleted_loop p xs s)) = pausing s"
  "paused (snd (PurgeCompleted_loop p xs s)) = paused s"
  "completing (snd (PurgeCompleted_loop p xs s)) = completing s"
  "tolerance (snd (PurgeCompleted_loop p xs s)) = tolerance s"
  "lastSize (snd (PurgeCompleted_loop p xs s)) = lastSize s"
  "maxNonThreadedWorkMs (snd (PurgeCompleted_loop p xs s)) = maxNonThreadedWorkMs s"
  "logged (snd (PurgeCompleted_loop p xs s)) = logged s"
  "calls (snd (PurgeCompleted_loop p xs s)) = calls s"
  "WorkQueue.more (snd (PurgeCompleted_loop p xs s)) = WorkQueue.more s"
  by (subst PurgeCompleted_loop_other, simp)+

lemma PurgeCompleted_alt:
  "PurgeCompleted p s =
     (snd (PurgeCompleted_loop p (workItems s) s))
       \<lparr>workItems := fst (PurgeCompleted_loop p (workItems s) s)\<rparr>"
  by (simp add: PurgeCompleted_def case_prod_beta)

lemma PurgeCompleted_workItems:
  "distinct (workItems s) \<Longrightarrow>
     workItems (PurgeCompleted p s) = filter (\<lambda>i. \<not> purged p (heap s) i) (workItems s)"
  by (simp add: PurgeCompleted_alt PurgeCompleted_loop_fst)

lemma PurgeCompleted_heap:
  "distinct (workItems s) \<Longrightarrow>
     heap (PurgeCompleted p s) j =
       (if j \<in> set (workItems s) \<and> purged p (heap s) j \<and> pooled (heap s j)
        then recycled else heap s j)"
  by (simp add: PurgeCompleted_alt PurgeCompleted_loop_heap)

lemma PurgeCompleted_poolItems:
  "distinct (workItems s) \<Longrightarrow>
     poolItems (PurgeCompleted p s) =
       poolItems s @ filter (\<lambda>j. purged p (heap s) j \<and> pooled (heap s j)) (workItems s)"
  by (simp add: PurgeCompleted_alt PurgeCompleted_loop_poolItems)

lemma PurgeCompleted_events:
  "distinct (workItems s) \<Longrightarrow>
     events (PurgeCompleted p s) =
       events s @ filter (\<lambda>j. purged p (heap s) j \<and> sendEvent (heap s j)) (workItems s)"
  by (simp add: PurgeCompleted_alt PurgeCompleted_loop_events)

lemma PurgeCompleted_other:
  "PurgeCompleted p s =
     s\<lparr>heap := heap (PurgeCompleted p s), poolItems := poolItems (PurgeCompleted p s),
       events := events (PurgeCompleted p s), workItems := workItems (PurgeCompleted p s)\<rparr>"
  by (rule WorkQueue.equality) (simp_all add: PurgeCompleted_alt PurgeCompleted_loop_frame)

lemma PurgeCompleted_frame:
  "queue (PurgeCompleted p s) = queue s" "locals (PurgeCompleted p s) = locals s"
  "threads (PurgeCompleted p s) = threads s" "calls (PurgeCompleted p s) = calls s"
  "paused (PurgeCompleted p s) = paused s" "lastSize (PurgeCompleted p s) = lastSize s"
  "tolerance (PurgeCompleted p s) = tolerance s"
  "maxNonThreadedWorkMs (PurgeCompleted p s) = maxNonThreadedWorkMs s"
  by (subst PurgeCompleted_other, simp)+

text \<open>
  Claim C5. On a live list without repetitions (which is what every reachable state has,
  see \<open>reachable_inv\<close>), \<^verbatim>\<open>PurgeCompleted(p)\<close> removes from the live list exactly the
  items that are completed and have a priority of at least \<open>p\<close>; the items it keeps stay in
  their order. Each removed item is passed to \<^verbatim>\<open>ReturnToPool\<close> (the pooled ones are reset
  and appended to the free list in the order of the live list), and one completion event is
  sent for each removed item whose \<^verbatim>\<open>sendEvent_\<close> is set, in the same order. No other
  item of the store is written and no other member of the scheduler changes.
\<close>

theorem PurgeCompleted_exact:
  assumes "distinct (workItems s)"
  shows "workItems (PurgeCompleted p s) =
           filter (\<lambda>i. \<not> (completed (heap s i) \<and> p \<le> priority (heap s i))) (workItems s) \<and>
         poolItems (PurgeCompleted p s) =
           poolItems s @ filter (\<lambda>i. completed (heap s i) \<and> p \<le> priority (heap s i) \<and>
                                     pooled (heap s i)) (workItems s) \<and>
         events (PurgeCompleted p s) =
           events s @ filter (\<lambda>i. completed (heap s i) \<and> p \<le> priority (heap s i) \<and>
                                  sendEvent (heap s i)) (workItems s) \<and>
         (\<forall>i. heap (PurgeCompleted p s) i =
            (if i \<in> set (workItems s) \<and> completed (heap s i) \<and> p \<le> priority (heap s i)
             then heap (ReturnToPool i s) i else heap s i)) \<and>
         PurgeCompleted p s =
           s\<lparr>heap := heap (PurgeCompleted p s), poolItems := poolItems (PurgeCompleted p s),
             events := events (PurgeCompleted p s), workItems := workItems (PurgeCompleted p s)\<rparr>"
proof (intro conjI allI)
  show "workItems (PurgeCompleted p s) =
      filter (\<lambda>i. \<not> (completed (heap s i) \<and> p \<le> priority (heap s i))) (workItems s)"
    using PurgeCompleted_workItems [OF assms, of p] by (simp add: purged_def)
  show "poolItems (PurgeCompleted p s) =
      poolItems s @ filter (\<lambda>i. completed (heap s i) \<and> p \<le> priority (heap s i) \<and>
                                     pooled (heap s i)) (workItems s)"
    using PurgeCompleted_poolItems [OF assms, of p] by (simp add: purged_def conj_assoc)
  show "events (PurgeCompleted p s) =
      events s @ filter (\<lambda>i. completed (heap s i) \<and> p \<le> priority (heap s i) \<and>
                                  sendEvent (heap s i)) (workItems s)"
    using PurgeCompleted_events [OF assms, of p] by (simp add: purged_def conj_assoc)
  show "heap (PurgeCompleted p s) i =
      (if i \<in> set (workItems s) \<and> completed (heap s i) \<and> p \<le> priority (heap s i)
       then heap (ReturnToPool i s) i else heap s i)" for i
    using PurgeCompleted_heap [OF assms, of p i] by (simp add: purged_def ReturnToPool_heap)
  show "PurgeCompleted p s =
      s\<lparr>heap := heap (PurgeCompleted p s), poolItems := poolItems (PurgeCompleted p s),
        events := events (PurgeCompleted p s), workItems := workItems (PurgeCompleted p s)\<rparr>"
    by (rule PurgeCompleted_other)
qed

theorem PurgeCompleted_exact_witness:
  "workItems (PurgeCompleted 3 ((WorkQueue_new items_done)\<lparr>workItems := [1, 2, 3, 4]\<rparr>)) = [2, 3, 4] \<and>
   poolItems (PurgeCompleted 3 ((WorkQueue_new items_done)\<lparr>workItems := [1, 2, 3, 4]\<rparr>)) = [1] \<and>
   events (PurgeCompleted 3 ((WorkQueue_new items_done)\<lparr>workItems := [1, 2, 3, 4]\<rparr>)) = [1]"
proof -
  let ?s = "(WorkQueue_new items_done)\<lparr>workItems := [1, 2, 3, 4]\<rparr>"
  have d: "distinct (workItems ?s)" by (simp add: WorkQueue_new_def)
  from PurgeCompleted_exact [OF d, of 3]
  have "workItems (PurgeCompleted 3 ?s) =
           filter (\<lambda>i. \<not> (completed (heap ?s i) \<and> 3 \<le> priority (heap ?s i))) (workItems ?s)"
    "poolItems (PurgeCompleted 3 ?s) =
           poolItems ?s @ filter (\<lambda>i. completed (heap ?s i) \<and> 3 \<le> priority (heap ?s i) \<and>
                                     pooled (heap ?s i)) (workItems ?s)"
    "events (PurgeCompleted 3 ?s) =
           events ?s @ filter (\<lambda>i. completed (heap ?s i) \<and> 3 \<le> priority (heap ?s i) \<and>
                                  sendEvent (heap ?s i)) (workItems ?s)"
    by blast+
  then show ?thesis by (simp add: WorkQueue_new_def items_done_def word_le_nat_alt)
qed

section \<open>The invariant holds in every reachable state\<close>

lemmas inv_defs = wq_inv_def queue_sorted_def queued_live_def queued_pending_def
  executing_ok_def pending_tracked_def

lemma set_queue_insert [simp]: "set (queue_insert h new q) = insert new (set q)"
  by (induction q) auto

lemma distinct_queue_insert: "new \<notin> set q \<Longrightarrow> distinct q \<Longrightarrow> distinct (queue_insert h new q)"
  by (induction q) auto

lemma sorted_queue_insert:
  "sorted_wrt (\<lambda>a b. priority (h b) \<le> priority (h a)) q \<Longrightarrow>
   sorted_wrt (\<lambda>a b. priority (h b) \<le> priority (h a)) (queue_insert h new q)"
  by (induction q) (auto simp: not_le intro: less_imp_le order_trans)

lemma sorted_wrt_heap_cong:
  "(\<And>x. x \<in> set q \<Longrightarrow> priority (h' x) = priority (h x)) \<Longrightarrow>
   sorted_wrt (\<lambda>a b. priority (h' b) \<le> priority (h' a)) q =
   sorted_wrt (\<lambda>a b. priority (h b) \<le> priority (h a)) q"
  by (induction q) auto

lemma sorted_wrt_remove1: "sorted_wrt P q \<Longrightarrow> sorted_wrt P (remove1 x q)"
  by (induction q) (auto dest: notin_set_remove1)

lemma queue_sortedI:
  assumes "\<And>x. x \<in> set (queue s') \<Longrightarrow> priority (heap s' x) = priority (heap s x)"
    and "sorted_wrt (\<lambda>a b. priority (heap s b) \<le> priority (heap s a)) (queue s')"
  shows "queue_sorted s'"
  unfolding queue_sorted_def
  using assms(2) sorted_wrt_heap_cong [of "queue s'" "heap s'" "heap s", OF assms(1)] by blast

lemma wq_inv_cong:
  assumes "heap s' = heap s" "queue s' = queue s" "workItems s' = workItems s"
    "\<And>w. item (locals s' w) = item (locals s w)" "threads s' = threads s"
  shows "wq_inv s' = wq_inv s"
  using assms by (simp add: inv_defs)

lemma wq_inv_new: "wq_inv (WorkQueue_new h)"
  by (simp add: inv_defs WorkQueue_new_def ProcessItems_entry_def)

lemma wq_inv_Pause: "wq_inv s \<Longrightarrow> wq_inv (Pause s)"
  by (simp add: inv_defs Pause_def)

lemma wq_inv_Resume: "wq_inv s \<Longrightarrow> wq_inv (Resume s)"
  by (simp add: inv_defs Resume_def)

lemma wq_inv_PurgePool: "wq_inv s \<Longrightarrow> wq_inv (PurgePool s)"
  by (simp add: inv_defs PurgePool_def Let_def)

lemma wq_inv_CreateThreads: "wq_inv s \<Longrightarrow> wq_inv (CreateThreads threading n s)"
  apply (simp add: inv_defs CreateThreads_def Pause_def ProcessItems_entry_def)
  apply (intro impI conjI)
   apply fastforce+
  done

lemma wq_inv_heap_outside:
  assumes "wq_inv s" and "\<And>x. x \<in> set (workItems s) \<Longrightarrow> h' x = heap s x"
  shows "wq_inv (s\<lparr>heap := h'\<rparr>)"
proof -
  have q: "\<And>x. x \<in> set (queue s) \<Longrightarrow> h' x = heap s x"
    using assms by (auto simp: inv_defs)
  then have "sorted_wrt (\<lambda>a b. priority (h' b) \<le> priority (h' a)) (queue s) =
             sorted_wrt (\<lambda>a b. priority (heap s b) \<le> priority (heap s a)) (queue s)"
    by (intro sorted_wrt_heap_cong) simp
  then show ?thesis using assms q by (simp add: inv_defs) 
qed

lemma wq_inv_AddWorkItem:
  assumes "wq_inv s" and "AddWorkItem new s = Inr s'"
  shows "wq_inv s'"
proof (cases "new = nullptr")
  case True
  then have "s' = s\<lparr>logged := logged s @ [''Null work item submitted to the work queue'']\<rparr>"
    using assms(2) by (simp add: AddWorkItem_def)
  then show ?thesis using assms(1) by (simp add: inv_defs)
next
  case False
  then have fresh: "new \<notin> set (workItems s)"
    using assms(2) by (auto simp: AddWorkItem_def split: if_splits)
  let ?h = "(heap s)(new := (heap s new)\<lparr>completed := False\<rparr>)"
  let ?t = "s\<lparr>workItems := workItems s @ [new], heap := ?h,
               queue := queue_insert ?h new (queue s)\<rparr>"
  have s': "s' = (if threads s \<noteq> 0 then ?t\<lparr>paused := False\<rparr> else ?t)"
    using assms(2) False fresh by (auto simp: AddWorkItem_def Let_def)
  have nq: "new \<notin> set (queue s)" using assms(1) fresh by (auto simp: inv_defs)
  have qi: "queue_insert ?h new (queue s) = queue_insert (heap s) new (queue s)"
    by (rule queue_insert_heap_cong) simp
  have srt: "sorted_wrt (\<lambda>a b. priority (heap s b) \<le> priority (heap s a))
               (queue_insert (heap s) new (queue s))"
    using assms(1) by (intro sorted_queue_insert) (simp add: inv_defs)
  have t: "wq_inv ?t"
    unfolding wq_inv_def
  proof (intro conjI)
    show "queue_sorted ?t"
      by (rule queue_sortedI [where s = s]) (simp_all only: qi srt, simp_all add: qi srt)
    show "queued_live ?t" using assms(1) by (auto simp: inv_defs)
    show "queued_pending ?t" using assms(1) by (auto simp: inv_defs)
    show "distinct (queue ?t)" using assms(1) nq by (simp add: inv_defs distinct_queue_insert)
    show "distinct (workItems ?t)" using assms(1) fresh by (simp add: inv_defs)
    show "nullptr \<notin> set (workItems ?t)" using assms(1) False by (auto simp: inv_defs)
    show "executing_ok ?t" using assms(1) fresh by (auto simp: inv_defs)
    show "pending_tracked ?t" using assms(1) by (auto simp: inv_defs)
  qed
  have "wq_inv (?t\<lparr>paused := False\<rparr>) = wq_inv ?t" by (rule wq_inv_cong) simp_all
  with t s' show ?thesis by simp
qed

lemma remove_found_effect:
  "remove_found i s =
     s\<lparr>queue := remove1 i (queue s), workItems := remove1 i (workItems s),
       heap := (if pooled (heap s i) then (heap s)(i := recycled) else heap s),
       poolItems := (if pooled (heap s i) then poolItems s @ [i] else poolItems s)\<rparr>"
  by (cases "heap s i") (simp add: remove_found_def ReturnToPool_def recycled_def Let_def)

lemma wq_inv_remove_found:
  assumes "wq_inv s" and "i \<in> set (queue s)"
  shows "wq_inv (remove_found i s)"
proof -
  let ?h = "if pooled (heap s i) then (heap s)(i := recycled) else heap s"
  have h: "\<And>x. x \<noteq> i \<Longrightarrow> ?h x = heap s x" by simp
  have dq: "distinct (queue s)" and dl: "distinct (workItems s)"
    using assms(1) by (simp_all add: inv_defs)
  have srt: "sorted_wrt (\<lambda>a b. priority (heap s b) \<le> priority (heap s a)) (remove1 i (queue s))"
    using assms(1) by (simp add: inv_defs sorted_wrt_remove1)
  show ?thesis
    unfolding wq_inv_def remove_found_effect
  proof (intro conjI)
    show "queue_sorted (s\<lparr>queue := remove1 i (queue s), workItems := remove1 i (workItems s),
       heap := ?h, poolItems := (if pooled (heap s i) then poolItems s @ [i] else poolItems s)\<rparr>)"
      using dq by (intro queue_sortedI [where s = s]) (simp_all add: srt)
  qed (use assms dq dl in \<open>auto simp: inv_defs\<close>)
qed

lemma wq_inv_RemoveWorkItem:
  "wq_inv s \<Longrightarrow> RemoveWorkItem i s = Inr (b, s') \<Longrightarrow> wq_inv s'"
  by (auto simp: RemoveWorkItem_def wq_inv_remove_found split: if_splits)

lemma wq_inv_RemoveWorkItems_loop:
  "wq_inv s \<Longrightarrow> wq_inv (snd (RemoveWorkItems_loop items n s))"
  by (induction items n s rule: RemoveWorkItems_loop.induct) (auto simp: wq_inv_remove_found)

lemma wq_inv_RemoveWorkItems:
  "wq_inv s \<Longrightarrow> RemoveWorkItems items s = Inr (n, s') \<Longrightarrow> wq_inv s'"
  using wq_inv_RemoveWorkItems_loop [of s items 0]
  by (auto simp: RemoveWorkItems_def split: if_splits)

lemma wq_inv_execute_front:
  assumes "wq_inv s" and "queue s = i # rest"
  shows "wq_inv (execute i t (s\<lparr>queue := rest\<rparr>))"
proof -
  have "sorted_wrt (\<lambda>a b. priority (heap s b) \<le> priority (heap s a)) rest"
    using assms by (simp add: inv_defs)
  then have "queue_sorted (execute i t (s\<lparr>queue := rest\<rparr>))"
    by (intro queue_sortedI [where s = s]) (simp_all add: execute_def)
  moreover have "queued_live (execute i t (s\<lparr>queue := rest\<rparr>))"
    using assms by (auto simp: inv_defs execute_def)
  moreover have "queued_pending (execute i t (s\<lparr>queue := rest\<rparr>))"
    using assms by (auto simp: inv_defs execute_def)
  moreover have "executing_ok (execute i t (s\<lparr>queue := rest\<rparr>))"
    using assms by (fastforce simp: inv_defs execute_def)
  moreover have "pending_tracked (execute i t (s\<lparr>queue := rest\<rparr>))"
    using assms by (fastforce simp: inv_defs execute_def)
  ultimately show ?thesis using assms by (simp add: wq_inv_def execute_def)
qed

lemma ProcessItems_step_idle:
  assumes "item (locals s w) = None" and "ProcessItems_step w s = Some s'"
  shows "s' = s\<lparr>locals := (locals s)(w := (locals s w)\<lparr>returned := True\<rparr>)\<rparr> \<or> s' = s \<or>
         s' = s\<lparr>locals := (locals s)(w := (locals s w)\<lparr>wasActive := False\<rparr>)\<rparr> \<or>
         (\<exists>i rest. queue s = i # rest \<and> w < threads s \<and> \<not> paused s \<and>
            s' = s\<lparr>queue := rest,
                   locals := (locals s)(w := (locals s w)\<lparr>wasActive := True, item := Some i\<rparr>)\<rparr>)"
proof (cases "queue s")
  case Nil
  then show ?thesis
    using assms by (simp add: ProcessItems_step_def Let_def split: if_splits) 
next
  case (Cons i rest)
  then show ?thesis
    using assms by (simp add: ProcessItems_step_def Let_def split: if_splits) 
qed

lemma wq_inv_ProcessItems_step:
  assumes "wq_inv s" and "ProcessItems_step w s = Some s'"
  shows "wq_inv s'"
proof (cases "item (locals s w)")
  case (Some i)
  let ?l = "(locals s)(w := (locals s w)\<lparr>item := None\<rparr>)"
  have s': "s' = (execute i (w + 1) s)\<lparr>locals := ?l\<rparr>"
    using assms(2) Some by (auto simp: ProcessItems_step_def Let_def split: if_splits)
  have ex: "executing_ok s" and pt: "pending_tracked s"
    using assms(1) by (simp_all add: wq_inv_def)
  have nq: "i \<notin> set (queue s)" using ex Some by (auto simp: executing_ok_def)
  have "sorted_wrt (\<lambda>a b. priority (heap s b) \<le> priority (heap s a)) (queue s)"
    using assms by (simp add: inv_defs)
  then have "queue_sorted s'"
    by (intro queue_sortedI [where s = s]) (simp_all add: execute_def s')
  moreover have "queued_live s'"
    using assms(1) by (auto simp: inv_defs execute_def s')
  moreover have "queued_pending s'"
    using assms(1) nq by (auto simp: inv_defs execute_def s')
  moreover have "executing_ok s'"
    unfolding executing_ok_def
  proof (intro allI impI)
    fix v x
    assume "item (locals s' v) = Some x"
    then have v: "v \<noteq> w" "item (locals s v) = Some x"
      by (auto simp: s' execute_def split: if_splits)
    have old: "v < threads s" "x \<in> set (workItems s)" "x \<notin> set (queue s)"
      "\<not> completed (heap s x)" "\<And>u. item (locals s u) = Some x \<Longrightarrow> u = v"
      using ex v(2) by (auto simp: executing_ok_def)
    have xi: "x \<noteq> i" using old(5) [of w] Some v(1) by auto
    have uniq: "\<forall>u. item (locals s' u) = Some x \<longrightarrow> u = v"
      using old(5) by (auto simp: s' execute_def split: if_splits)
    have "v < threads s' \<and> x \<in> set (workItems s') \<and> x \<notin> set (queue s') \<and>
        \<not> completed (heap s' x)"
      using old(1-4) xi by (simp add: s' execute_def)
    with uniq show "v < threads s' \<and> x \<in> set (workItems s') \<and> x \<notin> set (queue s') \<and>
        \<not> completed (heap s' x) \<and> (\<forall>u. item (locals s' u) = Some x \<longrightarrow> u = v)"
      by blast
  qed
  moreover have "pending_tracked s'"
    unfolding pending_tracked_def
  proof (intro ballI impI)
    fix x
    assume x: "x \<in> set (workItems s')" "\<not> completed (heap s' x)"
    then have xi: "x \<noteq> i" by (auto simp: s' execute_def)
    with x have "x \<in> set (workItems s)" "\<not> completed (heap s x)"
      by (auto simp: s' execute_def)
    then consider "x \<in> set (queue s)" | u where "item (locals s u) = Some x"
      using pt by (auto simp: pending_tracked_def)
    then show "x \<in> set (queue s') \<or> (\<exists>u. item (locals s' u) = Some x)"
    proof cases
      case 1
      then show ?thesis by (simp add: s' execute_def)
    next
      case 2
      then have "u \<noteq> w" using Some xi by auto
      with 2 have "item (locals s' u) = Some x" by (simp add: s' execute_def)
      then show ?thesis by blast
    qed
  qed
  ultimately show ?thesis using assms(1) by (simp add: wq_inv_def s' execute_def)
next
  case None
  have ex: "executing_ok s" and pt: "pending_tracked s" and ql: "queued_live s"
    and qp: "queued_pending s" and dq: "distinct (queue s)"
    using assms(1) by (simp_all add: wq_inv_def)
  consider (ret) "s' = s\<lparr>locals := (locals s)(w := (locals s w)\<lparr>returned := True\<rparr>)\<rparr>"
    | (same) "s' = s"
    | (idle) "s' = s\<lparr>locals := (locals s)(w := (locals s w)\<lparr>wasActive := False\<rparr>)\<rparr>"
    | (take) i rest where "queue s = i # rest" "w < threads s"
        "s' = s\<lparr>queue := rest,
           locals := (locals s)(w := (locals s w)\<lparr>wasActive := True, item := Some i\<rparr>)\<rparr>"
    using ProcessItems_step_idle [OF None assms(2)] by blast
  then show ?thesis
  proof cases
    case ret
    have "wq_inv s' = wq_inv s" using None by (intro wq_inv_cong) (simp_all add: ret)
    then show ?thesis using assms(1) by simp
  next
    case same
    then show ?thesis using assms(1) by simp
  next
    case idle
    have "wq_inv s' = wq_inv s" using None by (intro wq_inv_cong) (simp_all add: idle)
    then show ?thesis using assms(1) by simp
  next
    case take
    have "sorted_wrt (\<lambda>a b. priority (heap s b) \<le> priority (heap s a)) rest"
      using assms(1) take(1) by (simp add: inv_defs)
    then have "queue_sorted s'"
      by (intro queue_sortedI [where s = s]) (simp_all add: take(3))
    moreover have "queued_live s'"
      using assms(1) take(1) by (auto simp: inv_defs take(3))
    moreover have "queued_pending s'"
      using assms(1) take(1) by (auto simp: inv_defs take(3))
    moreover have "executing_ok s'"
      unfolding executing_ok_def
    proof (intro allI impI)
      fix v x
      assume a: "item (locals s' v) = Some x"
      show "v < threads s' \<and> x \<in> set (workItems s') \<and> x \<notin> set (queue s') \<and>
          \<not> completed (heap s' x) \<and> (\<forall>u. item (locals s' u) = Some x \<longrightarrow> u = v)"
      proof (cases "v = w")
        case True
        then have xi: "x = i" using a by (simp add: take(3))
        have held: "\<And>u. item (locals s u) \<noteq> Some i"
          using ex take(1) by (auto simp: executing_ok_def)
        have "i \<in> set (workItems s)" "i \<notin> set rest" "\<not> completed (heap s i)"
          using ql qp dq take(1) by (auto simp: queued_live_def queued_pending_def)
        then have "v < threads s' \<and> x \<in> set (workItems s') \<and> x \<notin> set (queue s') \<and>
          \<not> completed (heap s' x)"
          using True xi take(2) by (simp add: take(3))
        moreover have "\<forall>u. item (locals s' u) = Some x \<longrightarrow> u = v"
          using held True xi by (auto simp: take(3) split: if_splits)
        ultimately show ?thesis by blast
      next
        case False
        then have v: "item (locals s v) = Some x" using a by (simp add: take(3))
        have old: "v < threads s" "x \<in> set (workItems s)" "x \<notin> set (queue s)"
          "\<not> completed (heap s x)" "\<And>u. item (locals s u) = Some x \<Longrightarrow> u = v"
          using ex v by (auto simp: executing_ok_def)
        have xi: "x \<noteq> i" using old(3) take(1) by auto
        then have "\<forall>u. item (locals s' u) = Some x \<longrightarrow> u = v"
          using old(5) by (auto simp: take(3) split: if_splits)
        moreover have "v < threads s' \<and> x \<in> set (workItems s') \<and> x \<notin> set (queue s') \<and>
          \<not> completed (heap s' x)"
          using old(1-4) take(1) by (simp add: take(3))
        ultimately show ?thesis by blast
      qed
    qed
    moreover have "pending_tracked s'"
      unfolding pending_tracked_def
    proof (intro ballI impI)
      fix x
      assume x: "x \<in> set (workItems s')" "\<not> completed (heap s' x)"
      then have "x \<in> set (workItems s)" "\<not> completed (heap s x)"
        by (auto simp: take(3))
      then consider "x = i" | "x \<in> set rest" | u where "item (locals s u) = Some x"
        using pt take(1) by (auto simp: pending_tracked_def)
      then show "x \<in> set (queue s') \<or> (\<exists>u. item (locals s' u) = Some x)"
      proof cases
        case 1
        then have "item (locals s' w) = Some x" by (simp add: take(3))
        then show ?thesis by blast
      next
        case 2
        then show ?thesis by (simp add: take(3))
      next
        case 3
        then have "u \<noteq> w" using None by auto
        with 3 have "item (locals s' u) = Some x" by (simp add: take(3))
        then show ?thesis by blast
      qed
    qed
    ultimately show ?thesis using assms(1) take(1) by (simp add: wq_inv_def take(3))
  qed
qed

lemma wq_inv_worker_tick: "wq_inv s \<Longrightarrow> wq_inv (worker_tick w s)"
  by (auto simp: worker_tick_def wq_inv_ProcessItems_step split: option.splits)

lemma wq_inv_PurgeCompleted:
  assumes "wq_inv s"
  shows "wq_inv (PurgeCompleted p s)"
proof -
  let ?s' = "PurgeCompleted p s"
  have dl: "distinct (workItems s)" using assms by (simp add: wq_inv_def)
  note eff = PurgeCompleted_workItems [OF dl, of p] PurgeCompleted_heap [OF dl, of p]
    PurgeCompleted_frame [of p s]
  have keep: "\<And>x. \<not> completed (heap s x) \<Longrightarrow> heap ?s' x = heap s x"
    by (simp add: eff purged_def)
  have q: "\<And>x. x \<in> set (queue s) \<Longrightarrow> \<not> completed (heap s x)"
    using assms by (auto simp: inv_defs)
  have "sorted_wrt (\<lambda>a b. priority (heap s b) \<le> priority (heap s a)) (queue ?s')"
    using assms by (simp add: inv_defs eff)
  then have "queue_sorted ?s'"
    by (intro queue_sortedI [where s = s]) (simp_all add: eff(3) keep q)
  moreover have "queued_live ?s'"
    using assms q by (auto simp: inv_defs eff(1,3) purged_def)
  moreover have "queued_pending ?s'"
    using q by (simp add: queued_pending_def eff(3) keep)
  moreover have "distinct (workItems ?s')" using dl by (simp add: eff(1))
  moreover have "nullptr \<notin> set (workItems ?s')" using assms by (simp add: inv_defs eff(1))
  moreover have "executing_ok ?s'"
    unfolding executing_ok_def
  proof (intro allI impI)
    fix w x
    assume "item (locals ?s' w) = Some x"
    then have w: "item (locals s w) = Some x" by (simp add: eff)
    have old: "w < threads s" "x \<in> set (workItems s)" "x \<notin> set (queue s)"
      "\<not> completed (heap s x)" "\<forall>u. item (locals s u) = Some x \<longrightarrow> u = w"
      using assms w by (auto simp: inv_defs)
    have "w < threads ?s' \<and> x \<in> set (workItems ?s') \<and> x \<notin> set (queue ?s') \<and>
        \<not> completed (heap ?s' x)"
      using old(1-4) by (simp add: eff(1,3,4,5) keep purged_def)
    moreover have "\<forall>u. item (locals ?s' u) = Some x \<longrightarrow> u = w"
      using old(5) by (simp add: eff(4))
    ultimately show "w < threads ?s' \<and> x \<in> set (workItems ?s') \<and> x \<notin> set (queue ?s') \<and>
        \<not> completed (heap ?s' x) \<and> (\<forall>u. item (locals ?s' u) = Some x \<longrightarrow> u = w)"
      by blast
  qed
  moreover have "pending_tracked ?s'"
    unfolding pending_tracked_def
  proof (intro ballI impI)
    fix x
    assume x: "x \<in> set (workItems ?s')" "\<not> completed (heap ?s' x)"
    then have "x \<in> set (workItems s)" "\<not> purged p (heap s) x" by (simp_all add: eff(1))
    then have "x \<in> set (workItems s)" "\<not> completed (heap s x)"
      using x(2) by (simp_all add: eff(2))
    then have "x \<in> set (queue s) \<or> (\<exists>w. item (locals s w) = Some x)"
      using assms by (auto simp: inv_defs)
    then show "x \<in> set (queue ?s') \<or> (\<exists>w. item (locals ?s' w) = Some x)"
      by (simp add: eff(3,4))
  qed
  moreover have "distinct (queue ?s')" using assms by (simp add: inv_defs eff(3))
  ultimately show ?thesis by (simp add: wq_inv_def)
qed

lemma wq_inv_Complete_loop: "wq_inv s \<Longrightarrow> wq_inv (Complete_loop p s)"
proof (induction p s rule: Complete_loop.induct)
  case (1 p s)
  show ?case
  proof (cases "queue s")
    case Nil
    then show ?thesis using "1.prems" by (simp add: Complete_loop_Nil)
  next
    case (Cons i rest)
    show ?thesis
    proof (cases "p \<le> priority (heap s i)")
      case True
      have "wq_inv (execute i 0 (s\<lparr>queue := rest\<rparr>))"
        using "1.prems" Cons by (rule wq_inv_execute_front)
      then have "wq_inv (Complete_loop p (execute i 0 (s\<lparr>queue := rest\<rparr>)))"
        using "1.IH" [OF Cons True] by simp
      then show ?thesis using Cons True by (simp add: Complete_loop_Cons)
    next
      case False
      then show ?thesis using "1.prems" Cons by (simp add: Complete_loop_Cons)
    qed
  qed
qed

lemma wq_inv_HandleBeginFrame_loop: "wq_inv s \<Longrightarrow> wq_inv (HandleBeginFrame_loop usec k s)"
proof (induction usec k s rule: HandleBeginFrame_loop.induct)
  case (1 usec k s)
  show ?case
  proof (cases "queue s")
    case Nil
    then show ?thesis using "1.prems" by (simp add: HandleBeginFrame_loop_Nil)
  next
    case (Cons i rest)
    show ?thesis
    proof (cases "usec k < maxNonThreadedWorkMs s * 1000")
      case True
      have "wq_inv (execute i 0 (s\<lparr>queue := rest\<rparr>))"
        using "1.prems" Cons by (rule wq_inv_execute_front)
      then have "wq_inv (HandleBeginFrame_loop usec (k + 1) (execute i 0 (s\<lparr>queue := rest\<rparr>)))"
        using "1.IH" [OF Cons True] by simp
      then show ?thesis using Cons True by (simp add: HandleBeginFrame_loop_Cons)
    next
      case False
      then show ?thesis using "1.prems" Cons by (simp add: HandleBeginFrame_loop_Cons)
    qed
  qed
qed

lemma wq_inv_Complete_wait:
  "wq_inv s \<Longrightarrow> Complete_wait p ts s = Some s' \<Longrightarrow> wq_inv s'"
  by (induction p ts s rule: Complete_wait.induct)
     (auto simp: wq_inv_worker_tick split: if_splits)

lemma wq_inv_Complete_drain:
  "wq_inv s \<Longrightarrow> Complete_drain p ts s = Some s' \<Longrightarrow> wq_inv s'"
proof (induction p ts s rule: Complete_drain.induct)
  case (1 p s)
  then show ?case by simp
next
  case (2 p w ts s)
  then show ?case by (simp add: wq_inv_worker_tick)
next
  case (3 p ts s)
  show ?case
  proof (cases "queue s")
    case Nil
    then show ?thesis using 3 by (auto dest: wq_inv_Complete_wait)
  next
    case (Cons i rest)
    show ?thesis
    proof (cases "p \<le> priority (heap s i)")
      case True
      have "wq_inv (execute i 0 (s\<lparr>queue := rest\<rparr>))"
        using "3.prems"(1) Cons by (rule wq_inv_execute_front)
      then show ?thesis using 3 Cons True by simp
    next
      case False
      then show ?thesis using 3 Cons by (auto dest: wq_inv_Complete_wait)
    qed
  qed
qed

lemma wq_inv_completing: "wq_inv (s\<lparr>completing := b\<rparr>) = wq_inv s"
  by (rule wq_inv_cong) simp_all

lemma wq_inv_Complete:
  assumes "wq_inv s" and "Complete p ts s = Some s'"
  shows "wq_inv s'"
proof (cases "threads s = 0")
  case True
  then have "s' = (PurgeCompleted p (Complete_loop p (s\<lparr>completing := True\<rparr>)))\<lparr>completing := False\<rparr>"
    using assms(2) by (simp add: Complete_def)
  then show ?thesis
    using assms(1) by (simp add: wq_inv_completing wq_inv_PurgeCompleted wq_inv_Complete_loop)
next
  case False
  then obtain s1 where d: "Complete_drain p ts (Resume (s\<lparr>completing := True\<rparr>)) = Some s1"
    and s': "s' = (PurgeCompleted p (if queue s1 = [] then Pause s1 else s1))\<lparr>completing := False\<rparr>"
    using assms(2) by (auto simp: Complete_def split: option.splits)
  have "wq_inv (Resume (s\<lparr>completing := True\<rparr>))"
    using assms(1) by (simp add: wq_inv_Resume wq_inv_completing)
  then have "wq_inv s1" using d by (rule wq_inv_Complete_drain)
  then show ?thesis
    by (simp add: s' wq_inv_completing wq_inv_PurgeCompleted wq_inv_Pause)
qed

lemma wq_inv_HandleBeginFrame: "wq_inv s \<Longrightarrow> wq_inv (HandleBeginFrame usec s)"
  by (simp add: HandleBeginFrame_def wq_inv_PurgePool wq_inv_PurgeCompleted
      wq_inv_HandleBeginFrame_loop)

lemma wq_inv_apply_op:
  assumes "wq_inv s" and "apply_op x s = Some s'"
  shows "wq_inv s'"
proof (cases x)
  case (OpCreateThreads b n)
  then show ?thesis using assms by (auto simp: wq_inv_CreateThreads)
next
  case (OpGetFreeItem a v)
  show ?thesis
  proof (cases "poolItems s")
    case Nil
    then have "s' = s\<lparr>heap := (heap s)(a := v\<lparr>pooled := True\<rparr>)\<rparr>" "a \<notin> set (workItems s)"
      using assms(2) OpGetFreeItem by (auto simp: GetFreeItem_def split: if_splits)
    then show ?thesis using assms(1) by (auto intro!: wq_inv_heap_outside)
  next
    case (Cons i rest)
    then have "s' = s\<lparr>poolItems := rest\<rparr>"
      using assms(2) OpGetFreeItem by (auto simp: GetFreeItem_def split: if_splits)
    moreover have "wq_inv (s\<lparr>poolItems := rest\<rparr>) = wq_inv s" by (rule wq_inv_cong) simp_all
    ultimately show ?thesis using assms(1) by simp
  qed
next
  case (OpWrite a v)
  then have "s' = s\<lparr>heap := (heap s)(a := v\<lparr>pooled := pooled (heap s a)\<rparr>)\<rparr>" "a \<notin> set (workItems s)"
    using assms(2) by (auto split: if_splits)
  then show ?thesis using assms(1) by (auto intro!: wq_inv_heap_outside)
next
  case (OpAddWorkItem a)
  then show ?thesis
    using assms by (auto simp: sum_option_def split: sum.splits dest: wq_inv_AddWorkItem)
next
  case (OpRemoveWorkItem a)
  then show ?thesis
    using assms by (auto simp: sum_option_def split: sum.splits dest: wq_inv_RemoveWorkItem)
next
  case (OpRemoveWorkItems as)
  then show ?thesis
    using assms by (auto simp: sum_option_def split: sum.splits dest: wq_inv_RemoveWorkItems)
next
  case OpPause
  then show ?thesis using assms by (auto simp: wq_inv_Pause)
next
  case OpResume
  then show ?thesis using assms by (auto simp: wq_inv_Resume)
next
  case (OpComplete p ts)
  then show ?thesis using assms by (auto dest: wq_inv_Complete)
next
  case (OpPurgeCompleted p)
  then show ?thesis using assms by (auto simp: wq_inv_PurgeCompleted)
next
  case OpPurgePool
  then show ?thesis using assms by (auto simp: wq_inv_PurgePool)
next
  case (OpBeginFrame usec)
  then show ?thesis using assms by (auto simp: wq_inv_HandleBeginFrame)
next
  case OpDequeue
  then show ?thesis using assms by (auto split: list.splits intro: wq_inv_execute_front)
next
  case (OpWorker w)
  then show ?thesis using assms by (auto dest: wq_inv_ProcessItems_step)
qed

lemma wq_inv_run: "wq_inv s \<Longrightarrow> run ops s = Some s' \<Longrightarrow> wq_inv s'"
  by (induction ops arbitrary: s) (auto split: option.splits dest: wq_inv_apply_op)

lemma reachable_inv: "reachable s \<Longrightarrow> wq_inv s"
  using wq_inv_run wq_inv_new by (auto simp: reachable_def)

lemma front_maximal:
  assumes "queue_sorted s" and "i \<in> set (queue s)"
  shows "priority (heap s i) \<le> priority (heap s (hd (queue s)))"
  using assms by (cases "queue s") (auto simp: queue_sorted_def)

text \<open>
  Claim C7. In every state that a run reaches from the constructor, and in the state that
  any operation leads to from there (a submission, a removal, a step of a worker, a
  dequeue step of the main thread, a completion barrier with the steps of the workers
  beside it, a purge, the frame hook, and the others), the queue is sorted by priority
  from the highest down, every queued
  item is in the live list, and no queued item is completed. In particular no queued item
  has a higher priority than the front of the queue.
\<close>

theorem operations_preserve_invariant:
  assumes "reachable s" and "apply_op x s = Some s'"
  shows "state_invariant s \<and> state_invariant s' \<and>
         (\<forall>i \<in> set (queue s'). priority (heap s' i) \<le> priority (heap s' (hd (queue s'))))"
proof -
  have "wq_inv s" using assms(1) by (rule reachable_inv)
  moreover from this assms(2) have "wq_inv s'" by (rule wq_inv_apply_op)
  ultimately show ?thesis
    by (auto simp: wq_inv_def state_invariant_def intro: front_maximal)
qed

theorem operations_preserve_invariant_witness:
  "\<exists>s s'. run [OpAddWorkItem 1, OpAddWorkItem 2] (WorkQueue_new items_5153) = Some s \<and>
     apply_op (OpAddWorkItem 3) s = Some s' \<and> queue s' = [3, 1, 2] \<and> state_invariant s'"
proof -
  define s where "s = the (run [OpAddWorkItem 1, OpAddWorkItem 2] (WorkQueue_new items_5153))"
  define s' where "s' = the (apply_op (OpAddWorkItem 3) s)"
  have r: "run [OpAddWorkItem 1, OpAddWorkItem 2] (WorkQueue_new items_5153) = Some s"
    unfolding s_def by (simp add: eval_defs items_5153_def)
  have a: "apply_op (OpAddWorkItem 3) s = Some s'"
    unfolding s'_def s_def by (simp add: eval_defs items_5153_def)
  have q: "queue s' = [3, 1, 2]"
    unfolding s'_def s_def by (simp add: eval_defs items_5153_def)
  from operations_preserve_invariant [OF reachableI [OF r] a]
  have "state_invariant s'" by blast
  with r a q show ?thesis by blast
qed

lemma AddWorkItem_NDEBUG_fresh:
  "i = nullptr \<or> i \<notin> set (workItems s) \<Longrightarrow> AddWorkItem i s = Inr (AddWorkItem_NDEBUG i s)"
  by (auto simp: AddWorkItem_def AddWorkItem_NDEBUG_def Let_def)

lemma AddWorkItem_NDEBUG_lists:
  assumes "i \<noteq> nullptr"
  shows "workItems (AddWorkItem_NDEBUG i s) = workItems s @ [i]"
    and "set (queue (AddWorkItem_NDEBUG i s)) = insert i (set (queue s))"
    and "length (queue (AddWorkItem_NDEBUG i s)) = Suc (length (queue s))"
proof -
  have len: "length (queue_insert h i q) = Suc (length q)" for h q
    by (induction q) auto
  show "workItems (AddWorkItem_NDEBUG i s) = workItems s @ [i]"
    using assms by (simp add: AddWorkItem_NDEBUG_def Let_def)
  show "set (queue (AddWorkItem_NDEBUG i s)) = insert i (set (queue s))"
    using assms by (simp add: AddWorkItem_NDEBUG_def Let_def)
  show "length (queue (AddWorkItem_NDEBUG i s)) = Suc (length (queue s))"
    using assms by (simp add: AddWorkItem_NDEBUG_def Let_def len)
qed

lemma AddWorkItem_NDEBUG_duplicate:
  assumes "i \<noteq> nullptr" and "i \<in> set (workItems s)"
  shows "\<not> distinct (workItems (AddWorkItem_NDEBUG i s))"
    and "i \<in> set (queue s) \<Longrightarrow> \<not> distinct (queue (AddWorkItem_NDEBUG i s))"
proof -
  show "\<not> distinct (workItems (AddWorkItem_NDEBUG i s))"
    using assms by (simp add: AddWorkItem_NDEBUG_lists)
  assume q: "i \<in> set (queue s)"
  show "\<not> distinct (queue (AddWorkItem_NDEBUG i s))"
  proof
    assume d: "distinct (queue (AddWorkItem_NDEBUG i s))"
    have "card (set (queue (AddWorkItem_NDEBUG i s))) = length (queue (AddWorkItem_NDEBUG i s))"
      using d by (rule distinct_card)
    moreover have "set (queue (AddWorkItem_NDEBUG i s)) = set (queue s)"
      using assms(1) q by (auto simp: AddWorkItem_NDEBUG_lists)
    moreover have "card (set (queue s)) \<le> length (queue s)" by (rule card_length)
    ultimately show False using assms(1) by (simp add: AddWorkItem_NDEBUG_lists)
  qed
qed

text \<open>
  Claim C8, as the specification states it, holds only in a build that keeps the
  \<^verbatim>\<open>assert\<close>. In a release build, where \<^verbatim>\<open>NDEBUG\<close> removes it, a second
  \<^verbatim>\<open>AddWorkItem\<close> of item 2 returns, and item 2 is twice in the live list and twice in
  the queue. Up to there the two builds agree: the run of the first two submissions leads
  to the same state.
\<close>

theorem duplicate_submission_counterexample:
  "workItems (AddWorkItem_NDEBUG 2 (AddWorkItem_NDEBUG 1 (WorkQueue_new items_5153))) = [1, 2] \<and>
   queue (AddWorkItem_NDEBUG 2 (AddWorkItem_NDEBUG 1 (WorkQueue_new items_5153))) = [1, 2] \<and>
   run [OpAddWorkItem 1, OpAddWorkItem 2] (WorkQueue_new items_5153) =
     Some (AddWorkItem_NDEBUG 2 (AddWorkItem_NDEBUG 1 (WorkQueue_new items_5153))) \<and>
   workItems (AddWorkItem_NDEBUG 2 (AddWorkItem_NDEBUG 2 (AddWorkItem_NDEBUG 1
     (WorkQueue_new items_5153)))) = [1, 2, 2] \<and>
   queue (AddWorkItem_NDEBUG 2 (AddWorkItem_NDEBUG 2 (AddWorkItem_NDEBUG 1
     (WorkQueue_new items_5153)))) = [1, 2, 2]"
  by (simp add: AddWorkItem_NDEBUG_def eval_defs items_5153_def)

text \<open>
  Claim C8, amended. In a build in which \<^verbatim>\<open>assert\<close> is active, \<^verbatim>\<open>AddWorkItem\<close> of a
  non-null item that is in the live list stops at the \<^verbatim>\<open>assert\<close>, in every state; so in
  every state that a run reaches from the constructor no item is twice in the live list or
  twice in the queue (and the null pointer is in neither). In a release build the two
  functions agree on every item that is null or not in the live list; on a non-null item
  of the live list the release build does not stop: it appends the item to the live list
  and inserts it into the queue once more, so the item is twice in the live list, and
  twice in the queue if it was still queued.
\<close>

theorem duplicate_submission_rejected:
  "(i \<noteq> nullptr \<and> i \<in> set (workItems s) \<longrightarrow> AddWorkItem i s = Inl AssertionFailed) \<and>
   (reachable s \<longrightarrow>
      nullptr \<notin> set (workItems s) \<and> distinct (workItems s) \<and> distinct (queue s)) \<and>
   (i = nullptr \<or> i \<notin> set (workItems s) \<longrightarrow> AddWorkItem i s = Inr (AddWorkItem_NDEBUG i s)) \<and>
   (i \<noteq> nullptr \<and> i \<in> set (workItems s) \<longrightarrow>
      workItems (AddWorkItem_NDEBUG i s) = workItems s @ [i] \<and>
      set (queue (AddWorkItem_NDEBUG i s)) = insert i (set (queue s)) \<and>
      length (queue (AddWorkItem_NDEBUG i s)) = Suc (length (queue s)) \<and>
      \<not> distinct (workItems (AddWorkItem_NDEBUG i s)) \<and>
      (i \<in> set (queue s) \<longrightarrow> \<not> distinct (queue (AddWorkItem_NDEBUG i s))))"
proof -
  have 1: "i \<noteq> nullptr \<and> i \<in> set (workItems s) \<longrightarrow> AddWorkItem i s = Inl AssertionFailed"
    by (simp add: AddWorkItem_def)
  have 2: "reachable s \<longrightarrow>
      nullptr \<notin> set (workItems s) \<and> distinct (workItems s) \<and> distinct (queue s)"
    using reachable_inv [of s] by (auto simp: wq_inv_def)
  have 3: "i = nullptr \<or> i \<notin> set (workItems s) \<longrightarrow> AddWorkItem i s = Inr (AddWorkItem_NDEBUG i s)"
    using AddWorkItem_NDEBUG_fresh by blast
  have 4: "i \<noteq> nullptr \<and> i \<in> set (workItems s) \<longrightarrow>
      workItems (AddWorkItem_NDEBUG i s) = workItems s @ [i] \<and>
      set (queue (AddWorkItem_NDEBUG i s)) = insert i (set (queue s)) \<and>
      length (queue (AddWorkItem_NDEBUG i s)) = Suc (length (queue s)) \<and>
      \<not> distinct (workItems (AddWorkItem_NDEBUG i s)) \<and>
      (i \<in> set (queue s) \<longrightarrow> \<not> distinct (queue (AddWorkItem_NDEBUG i s)))"
    using AddWorkItem_NDEBUG_lists [of i s] AddWorkItem_NDEBUG_duplicate [of i s] by blast
  from 1 2 3 4 show ?thesis by blast
qed

theorem duplicate_submission_rejected_witness:
  "\<exists>s. run [OpAddWorkItem 1, OpAddWorkItem 2] (WorkQueue_new items_5153) = Some s \<and>
     workItems s = [1, 2] \<and> AddWorkItem 2 s = Inl AssertionFailed \<and>
     distinct (workItems s) \<and> distinct (queue s) \<and>
     \<not> distinct (workItems (AddWorkItem_NDEBUG 2 s)) \<and>
     AddWorkItem 3 s = Inr (AddWorkItem_NDEBUG 3 s)"
proof -
  define s where "s = the (run [OpAddWorkItem 1, OpAddWorkItem 2] (WorkQueue_new items_5153))"
  have r: "run [OpAddWorkItem 1, OpAddWorkItem 2] (WorkQueue_new items_5153) = Some s"
    unfolding s_def by (simp add: eval_defs items_5153_def)
  have l: "workItems s = [1, 2]"
    unfolding s_def by (simp add: eval_defs items_5153_def)
  have a: "(2::nat) \<noteq> nullptr \<and> 2 \<in> set (workItems s)" by (simp add: l nullptr_def)
  have b: "(3::nat) = nullptr \<or> 3 \<notin> set (workItems s)" by (simp add: l)
  from duplicate_submission_rejected [of 2 s] a reachableI [OF r]
  have "AddWorkItem 2 s = Inl AssertionFailed" "distinct (workItems s)" "distinct (queue s)"
    "\<not> distinct (workItems (AddWorkItem_NDEBUG 2 s))" by blast+
  moreover from duplicate_submission_rejected [of 3 s] b
  have "AddWorkItem 3 s = Inr (AddWorkItem_NDEBUG 3 s)" by blast
  ultimately show ?thesis using r l by blast
qed

section \<open>The completion barrier\<close>

lemma IsCompleted_loop_iff:
  "IsCompleted_loop p h xs \<longleftrightarrow> (\<forall>i \<in> set xs. p \<le> priority (h i) \<longrightarrow> completed (h i))"
  by (induction xs) auto

lemma IsCompleted_iff:
  "IsCompleted p s \<longleftrightarrow> (\<forall>i \<in> set (workItems s). p \<le> priority (heap s i) \<longrightarrow> completed (heap s i))"
  by (simp add: IsCompleted_def IsCompleted_loop_iff)

lemma Complete_wait_done: "Complete_wait p ts s = Some s' \<Longrightarrow> IsCompleted p s'"
  by (induction p ts s rule: Complete_wait.induct) (auto split: if_splits)

lemma Complete_drain_done: "Complete_drain p ts s = Some s' \<Longrightarrow> IsCompleted p s'"
  by (induction p ts s rule: Complete_drain.induct)
     (auto split: if_splits list.splits dest: Complete_wait_done)

lemma IsCompleted_PurgeCompleted:
  assumes "distinct (workItems s)" and "IsCompleted p s"
  shows "IsCompleted p (PurgeCompleted p s)"
  using assms(2)
  by (auto simp: IsCompleted_iff PurgeCompleted_workItems [OF assms(1)]
      PurgeCompleted_heap [OF assms(1)] purged_def)

lemma Complete_loop_threads: "threads (Complete_loop p s) = threads s"
proof (induction p s rule: Complete_loop.induct)
  case (1 p s)
  show ?case
  proof (cases "queue s")
    case Nil
    then show ?thesis by (simp add: Complete_loop_Nil)
  next
    case (Cons i rest)
    then show ?thesis using "1.IH" [OF Cons]
      by (cases "p \<le> priority (heap s i)") (simp_all add: Complete_loop_Cons execute_def)
  qed
qed

lemma Complete_loop_front:
  "queue (Complete_loop p s) = [] \<or>
   \<not> p \<le> priority (heap (Complete_loop p s) (hd (queue (Complete_loop p s))))"
proof (induction p s rule: Complete_loop.induct)
  case (1 p s)
  show ?case
  proof (cases "queue s")
    case Nil
    then show ?thesis by (simp add: Complete_loop_Nil)
  next
    case (Cons i rest)
    then show ?thesis using "1.IH" [OF Cons]
      by (cases "p \<le> priority (heap s i)") (simp_all add: Complete_loop_Cons)
  qed
qed

lemma IsCompleted_Complete_loop:
  assumes "wq_inv s" and "threads s = 0"
  shows "IsCompleted p (Complete_loop p s)"
proof -
  let ?t = "Complete_loop p s"
  have inv: "wq_inv ?t" using assms(1) by (rule wq_inv_Complete_loop)
  have th: "threads ?t = 0" using assms(2) by (simp add: Complete_loop_threads)
  have idle: "\<And>w x. item (locals ?t w) \<noteq> Some x"
    using inv th by (auto simp: wq_inv_def executing_ok_def)
  show ?thesis
    unfolding IsCompleted_iff
  proof (intro ballI impI)
    fix i
    assume i: "i \<in> set (workItems ?t)" "p \<le> priority (heap ?t i)"
    show "completed (heap ?t i)"
    proof (rule ccontr)
      assume "\<not> completed (heap ?t i)"
      then have q: "i \<in> set (queue ?t)"
        using inv i(1) idle by (auto simp: wq_inv_def pending_tracked_def)
      then have "priority (heap ?t i) \<le> priority (heap ?t (hd (queue ?t)))"
        using inv by (intro front_maximal) (simp_all add: wq_inv_def)
      moreover have "\<not> p \<le> priority (heap ?t (hd (queue ?t)))"
        using Complete_loop_front [of p s] q by auto
      ultimately show False using i(2) by (meson order_trans)
    qed
  qed
qed

lemma Complete_done:
  assumes "wq_inv s" and "Complete p ts s = Some s'"
  shows "IsCompleted p s'"
proof (cases "threads s = 0")
  case True
  let ?t = "Complete_loop p (s\<lparr>completing := True\<rparr>)"
  have s': "s' = (PurgeCompleted p ?t)\<lparr>completing := False\<rparr>"
    using assms(2) True by (simp add: Complete_def)
  have inv: "wq_inv (s\<lparr>completing := True\<rparr>)" using assms(1) by (simp add: wq_inv_completing)
  then have "IsCompleted p ?t" using True by (intro IsCompleted_Complete_loop) simp_all
  moreover have "distinct (workItems ?t)"
    using wq_inv_Complete_loop [OF inv, of p] by (simp add: wq_inv_def)
  ultimately have "IsCompleted p (PurgeCompleted p ?t)" by (intro IsCompleted_PurgeCompleted)
  then show ?thesis by (simp add: s' IsCompleted_def)
next
  case False
  then obtain s1 where d: "Complete_drain p ts (Resume (s\<lparr>completing := True\<rparr>)) = Some s1"
    and s': "s' = (PurgeCompleted p (if queue s1 = [] then Pause s1 else s1))\<lparr>completing := False\<rparr>"
    using assms(2) by (auto simp: Complete_def split: option.splits)
  let ?u = "if queue s1 = [] then Pause s1 else s1"
  have "wq_inv (Resume (s\<lparr>completing := True\<rparr>))"
    using assms(1) by (simp add: wq_inv_Resume wq_inv_completing)
  then have "wq_inv s1" using d by (rule wq_inv_Complete_drain)
  then have dl: "distinct (workItems ?u)" by (simp add: wq_inv_def Pause_def)
  have "IsCompleted p s1" using d by (rule Complete_drain_done)
  then have "IsCompleted p ?u" by (simp add: IsCompleted_def Pause_def)
  with dl have "IsCompleted p (PurgeCompleted p ?u)" by (intro IsCompleted_PurgeCompleted)
  then show ?thesis by (simp add: s' IsCompleted_def)
qed

lemma Complete_returns: "threads s = 0 \<Longrightarrow> \<exists>s'. Complete p ts s = Some s'"
  by (simp add: Complete_def)

lemma ProcessItems_step_busy:
  assumes "item (locals s w) = Some x" and "w < threads s"
  shows "ProcessItems_step w s =
           Some ((execute x (w + 1) s)\<lparr>locals := (locals s)(w := (locals s w)\<lparr>item := None\<rparr>)\<rparr>)"
  using assms by (simp add: ProcessItems_step_def Let_def)

lemma worker_tick_drained:
  assumes "wq_inv s" and "drained p s" and "held_by p (w # ws) s"
  shows "drained p (worker_tick w s) \<and> held_by p ws (worker_tick w s) \<and>
         threads (worker_tick w s) = threads s"
proof (cases "item (locals s w)")
  case (Some x)
  have w: "w < threads s" using assms(1) Some by (auto simp: wq_inv_def executing_ok_def)
  let ?t = "(execute x (w + 1) s)\<lparr>locals := (locals s)(w := (locals s w)\<lparr>item := None\<rparr>)\<rparr>"
  have t: "worker_tick w s = ?t"
    using ProcessItems_step_busy [OF Some w] by (simp add: worker_tick_def)
  have "drained p ?t" using assms(2) by (auto simp: drained_def execute_def)
  moreover have "held_by p ws ?t"
    unfolding held_by_def
  proof (intro allI impI)
    fix v y
    assume a: "item (locals ?t v) = Some y \<and> p \<le> priority (heap ?t y)"
    then have v: "v \<noteq> w" "item (locals s v) = Some y"
      by (auto simp: execute_def split: if_splits)
    moreover have "p \<le> priority (heap s y)" using a by (auto simp: execute_def split: if_splits)
    ultimately have "v \<in> set (w # ws)" using assms(3) by (auto simp: held_by_def)
    with v(1) show "v \<in> set ws" by simp
  qed
  moreover have "threads ?t = threads s" by (simp add: execute_def)
  ultimately show ?thesis by (simp only: t) 
next
  case None
  have keep: "held_by p ws s"
    using assms(3) None by (auto simp: held_by_def)
  show ?thesis
  proof (cases "ProcessItems_step w s")
    case N: None
    then show ?thesis using assms(2) keep by (simp add: worker_tick_def)
  next
    case (Some s')
    then have t: "worker_tick w s = s'" by (simp add: worker_tick_def)
    consider (ret) "s' = s\<lparr>locals := (locals s)(w := (locals s w)\<lparr>returned := True\<rparr>)\<rparr>"
      | (same) "s' = s"
      | (idle) "s' = s\<lparr>locals := (locals s)(w := (locals s w)\<lparr>wasActive := False\<rparr>)\<rparr>"
      | (take) i rest where "queue s = i # rest" "w < threads s"
          "s' = s\<lparr>queue := rest,
             locals := (locals s)(w := (locals s w)\<lparr>wasActive := True, item := Some i\<rparr>)\<rparr>"
      using ProcessItems_step_idle [OF None Some] by blast
    then show ?thesis
    proof cases
      case ret
      then show ?thesis using assms(2) keep None
        by (auto simp: t drained_def held_by_def)
    next
      case same
      then show ?thesis using assms(2) keep by (simp add: t)
    next
      case idle
      then show ?thesis using assms(2) keep None
        by (auto simp: t drained_def held_by_def)
    next
      case take
      have low: "\<not> p \<le> priority (heap s i)" using assms(2) take(1) by (simp add: drained_def)
      have "drained p s'" using assms(2) take(1) by (simp add: drained_def take(3))
      moreover have "held_by p ws s'"
        using keep low by (auto simp: held_by_def take(3) split: if_splits)
      moreover have "threads s' = threads s" by (simp add: take(3))
      ultimately show ?thesis by (simp add: t)
    qed
  qed
qed

lemma Complete_wait_workers:
  assumes "wq_inv s" and "drained p s" and "held_by p ws s"
  shows "\<exists>s'. Complete_wait p (map Worker ws @ [Main]) s = Some s'"
  using assms
proof (induction ws arbitrary: s)
  case Nil
  have "IsCompleted p s"
    unfolding IsCompleted_iff
  proof (intro ballI impI)
    fix i
    assume i: "i \<in> set (workItems s)" "p \<le> priority (heap s i)"
    show "completed (heap s i)"
    proof (rule ccontr)
      assume "\<not> completed (heap s i)"
      then have "i \<in> set (queue s) \<or> (\<exists>w. item (locals s w) = Some i)"
        using Nil.prems(1) i(1) by (auto simp: wq_inv_def pending_tracked_def)
      then show False
        using Nil.prems(2,3) i(2) by (auto simp: drained_def held_by_def)
    qed
  qed
  then show ?case by simp
next
  case (Cons w ws)
  note t = worker_tick_drained [OF Cons.prems]
  have "\<exists>s'. Complete_wait p (map Worker ws @ [Main]) (worker_tick w s) = Some s'"
    using Cons.prems(1) t by (intro Cons.IH) (simp_all add: wq_inv_worker_tick)
  then show ?case by simp
qed

lemma Complete_wait_spin:
  assumes "\<exists>s'. Complete_wait p ts s = Some s'"
  shows "\<exists>s'. Complete_wait p (replicate k Main @ ts) s = Some s'"
  using assms by (induction k) auto

lemma held_by_all: "wq_inv s \<Longrightarrow> held_by p [0..<threads s] s"
  by (auto simp: held_by_def wq_inv_def executing_ok_def)

lemma drained_front:
  assumes "wq_inv s" and "queue s = i # rest" and "\<not> p \<le> priority (heap s i)"
  shows "drained p s"
  unfolding drained_def
proof
  fix x
  assume "x \<in> set (queue s)"
  then have "priority (heap s x) \<le> priority (heap s (hd (queue s)))"
    using assms(1) by (intro front_maximal) (simp_all add: wq_inv_def)
  then show "\<not> p \<le> priority (heap s x)" using assms(2,3) by (auto dest: order_trans)
qed

lemma Complete_drain_fair:
  assumes "wq_inv s" and "length (queue s) \<le> k"
  shows "\<exists>s'. Complete_drain p (replicate (Suc k) Main @ map Worker [0..<threads s] @ [Main]) s
           = Some s'"
  using assms
proof (induction k arbitrary: s)
  case 0
  then have q: "queue s = []" by simp
  have "drained p s" using q by (simp add: drained_def)
  then have "\<exists>s'. Complete_wait p (map Worker [0..<threads s] @ [Main]) s = Some s'"
    using "0.prems"(1) by (intro Complete_wait_workers held_by_all)
  then show ?case using q by simp
next
  case (Suc k)
  let ?ts = "map Worker [0..<threads s] @ [Main]"
  have w: "drained p s \<Longrightarrow> \<exists>s'. Complete_wait p (replicate (Suc k) Main @ ?ts) s = Some s'"
    using Suc.prems(1) by (intro Complete_wait_spin Complete_wait_workers held_by_all)
  show ?case
  proof (cases "queue s")
    case Nil
    then have "drained p s" by (simp add: drained_def)
    then show ?thesis using w Nil by simp
  next
    case (Cons i rest)
    show ?thesis
    proof (cases "p \<le> priority (heap s i)")
      case True
      let ?t = "execute i 0 (s\<lparr>queue := rest\<rparr>)"
      have inv: "wq_inv ?t" using Suc.prems(1) Cons by (rule wq_inv_execute_front)
      have "length (queue ?t) \<le> k" using Suc.prems(2) Cons by (simp add: execute_def)
      from Suc.IH [OF inv this]
      have "\<exists>s'. Complete_drain p (replicate (Suc k) Main @ map Worker [0..<threads ?t] @ [Main]) ?t
           = Some s'" .
      moreover have "threads ?t = threads s" by (simp add: execute_def)
      ultimately show ?thesis using Cons True by simp
    next
      case False
      have "drained p s" using Suc.prems(1) Cons False by (rule drained_front)
      then show ?thesis using w Cons False by simp
    qed
  qed
qed

lemma Complete_returns_fair:
  assumes "wq_inv s" and "threads s \<noteq> 0"
  shows "\<exists>s'. Complete p (replicate (Suc (length (queue s))) Main @
                          map Worker [0..<threads s] @ [Main]) s = Some s'"
proof -
  let ?s0 = "Resume (s\<lparr>completing := True\<rparr>)"
  have inv: "wq_inv ?s0" using assms(1) by (simp add: wq_inv_Resume wq_inv_completing)
  have e: "queue ?s0 = queue s" "threads ?s0 = threads s" by (simp_all add: Resume_def)
  have "\<exists>s'. Complete_drain p (replicate (Suc (length (queue ?s0))) Main @
                          map Worker [0..<threads ?s0] @ [Main]) ?s0 = Some s'"
    using inv by (intro Complete_drain_fair) simp_all
  then obtain s1 where "Complete_drain p (replicate (Suc (length (queue s))) Main @
                          map Worker [0..<threads s] @ [Main]) ?s0 = Some s1"
    unfolding e by blast
  then show ?thesis using assms(2) by (simp add: Complete_def)
qed

text \<open>
  Claim C2. When \<^verbatim>\<open>Complete(p)\<close>, called in a reachable state, returns, \<^verbatim>\<open>IsCompleted(p)\<close>
  holds and no live item with a priority of at least \<open>p\<close> is left uncompleted. This holds
  without worker threads, where the call always returns, and with worker threads under
  every interleaving of their steps with the call; there the call does return once the
  main thread has taken its own steps and every worker one step more.
  \<^verbatim>\<open>IsCompleted(q)\<close> is true exactly when no live item has a priority of at least \<open>q\<close>
  and is not completed. Items of lower priority may remain: after the items with
  priorities 5, 1, 5 and 3 were submitted, \<^verbatim>\<open>Complete(3)\<close> leaves item 2, of priority 1,
  queued, live and not completed.
\<close>

theorem Complete_barrier:
  "(reachable s \<and> Complete p ts s = Some s' \<longrightarrow>
      IsCompleted p s' \<and>
      (\<forall>i \<in> set (workItems s'). p \<le> priority (heap s' i) \<longrightarrow> completed (heap s' i))) \<and>
   (IsCompleted q t \<longleftrightarrow>
      \<not> (\<exists>i \<in> set (workItems t). q \<le> priority (heap t i) \<and> \<not> completed (heap t i))) \<and>
   (threads s = 0 \<longrightarrow> (\<exists>s''. Complete p ts s = Some s'')) \<and>
   (reachable s \<and> threads s \<noteq> 0 \<longrightarrow>
      (\<exists>s''. Complete p (replicate (Suc (length (queue s))) Main @
                           map Worker [0..<threads s] @ [Main]) s = Some s'')) \<and>
   (\<exists>u u'. run [OpAddWorkItem 1, OpAddWorkItem 2, OpAddWorkItem 3, OpAddWorkItem 4]
                (WorkQueue_new items_5153) = Some u \<and>
            Complete 3 [] u = Some u' \<and> queue u' = [2] \<and> workItems u' = [2] \<and>
            \<not> completed (heap u' 2))"
proof (intro conjI impI)
  assume a: "reachable s \<and> Complete p ts s = Some s'"
  then have "IsCompleted p s'" using Complete_done reachable_inv by blast
  then show "IsCompleted p s'"
    and "\<forall>i \<in> set (workItems s'). p \<le> priority (heap s' i) \<longrightarrow> completed (heap s' i)"
    by (simp_all add: IsCompleted_iff)
next
  show "IsCompleted q t \<longleftrightarrow>
      \<not> (\<exists>i \<in> set (workItems t). q \<le> priority (heap t i) \<and> \<not> completed (heap t i))"
    by (auto simp: IsCompleted_iff)
next
  assume "threads s = 0"
  then show "\<exists>s''. Complete p ts s = Some s''" by (rule Complete_returns)
next
  assume "reachable s \<and> threads s \<noteq> 0"
  then show "\<exists>s''. Complete p (replicate (Suc (length (queue s))) Main @
                           map Worker [0..<threads s] @ [Main]) s = Some s''"
    using Complete_returns_fair [of s p] reachable_inv by blast
next
  define u where "u = the (run [OpAddWorkItem 1, OpAddWorkItem 2, OpAddWorkItem 3, OpAddWorkItem 4]
                (WorkQueue_new items_5153))"
  define u' where "u' = the (Complete 3 [] u)"
  have 1: "run [OpAddWorkItem 1, OpAddWorkItem 2, OpAddWorkItem 3, OpAddWorkItem 4]
                (WorkQueue_new items_5153) = Some u"
    unfolding u_def by (simp add: eval_defs items_5153_def)
  have "threads u = 0" unfolding u_def by (simp add: eval_defs items_5153_def)
  then have 2: "Complete 3 [] u = Some u'"
    unfolding u'_def using Complete_returns [of u 3 "[]"] by auto
  have 3: "queue u' = [2]" "workItems u' = [2]" "\<not> completed (heap u' 2)"
    unfolding u'_def u_def by (simp_all add: eval_defs Complete_loop.simps items_5153_def)
  from 1 2 3 show "\<exists>u u'. run [OpAddWorkItem 1, OpAddWorkItem 2, OpAddWorkItem 3, OpAddWorkItem 4]
                (WorkQueue_new items_5153) = Some u \<and>
            Complete 3 [] u = Some u' \<and> queue u' = [2] \<and> workItems u' = [2] \<and>
            \<not> completed (heap u' 2)" by blast
qed

theorem Complete_barrier_witness:
  "\<exists>s s'. run [OpCreateThreads True 1, OpAddWorkItem 1, OpWorker 0, OpAddWorkItem 2]
            (WorkQueue_new items_5153) = Some s \<and>
     Complete 3 [Worker 0, Main, Main] s = Some s' \<and> IsCompleted 3 s' \<and>
     workItems s' = [2] \<and> queue s' = [2] \<and> calls s' = [(1, 1)]"
proof -
  define s where "s = the (run [OpCreateThreads True 1, OpAddWorkItem 1, OpWorker 0, OpAddWorkItem 2]
            (WorkQueue_new items_5153))"
  define s' where "s' = the (Complete 3 [Worker 0, Main, Main] s)"
  have r: "run [OpCreateThreads True 1, OpAddWorkItem 1, OpWorker 0, OpAddWorkItem 2]
            (WorkQueue_new items_5153) = Some s"
    unfolding s_def by (simp add: eval_defs thread_defs items_5153_def)
  have c: "Complete 3 [Worker 0, Main, Main] s = Some s'"
    unfolding s'_def s_def by (simp add: eval_defs thread_defs items_5153_def)
  have v: "workItems s' = [2]" "queue s' = [2]" "calls s' = [(1, 1)]"
    unfolding s'_def s_def by (simp_all add: eval_defs thread_defs items_5153_def)
  have "reachable s \<and> Complete 3 [Worker 0, Main, Main] s = Some s'"
    using reachableI [OF r] c by simp
  with Complete_barrier [of s 3 "[Worker 0, Main, Main]" s'] have "IsCompleted 3 s'" by blast
  with r c v show ?thesis by blast
qed

section \<open>Recycling through the pool\<close>

lemma run_owned_run: "run_owned ops s = Some s' \<Longrightarrow> run ops s = Some s'"
  by (induction ops arbitrary: s) (auto split: if_splits option.splits)

lemma reachable_owned_reachable: "reachable_owned s \<Longrightarrow> reachable s"
  by (auto simp: reachable_owned_def reachable_def dest: run_owned_run)

lemma pool_clean_cong:
  "heap s' = heap s \<Longrightarrow> poolItems s' = poolItems s \<Longrightarrow> workItems s' = workItems s \<Longrightarrow>
   pool_clean s' = pool_clean s"
  by (simp add: pool_clean_def)

lemma pool_clean_new: "pool_clean (WorkQueue_new h)"
  by (simp add: pool_clean_def WorkQueue_new_def)

lemma pool_clean_execute:
  "pool_clean s \<Longrightarrow> i \<in> set (workItems s) \<Longrightarrow> pool_clean (execute i t s)"
  by (auto simp: pool_clean_def execute_def)

lemma pool_clean_execute_front:
  assumes "wq_inv s" and "pool_clean s" and "queue s = i # rest"
  shows "pool_clean (execute i t (s\<lparr>queue := rest\<rparr>))"
proof -
  have "i \<in> set (workItems s)" using assms(1,3) by (auto simp: wq_inv_def queued_live_def)
  moreover have "pool_clean (s\<lparr>queue := rest\<rparr>) = pool_clean s" by (rule pool_clean_cong) simp_all
  ultimately show ?thesis using assms(2) by (intro pool_clean_execute) simp_all
qed

lemma pool_clean_remove_found:
  assumes "distinct (workItems s)" and "pool_clean s" and "i \<in> set (workItems s)"
  shows "pool_clean (remove_found i s)"
  using assms unfolding pool_clean_def remove_found_effect by auto

lemma pool_clean_remove_queued:
  "wq_inv s \<Longrightarrow> pool_clean s \<Longrightarrow> i \<in> set (workItems s) \<Longrightarrow> pool_clean (remove_found i s)"
  by (rule pool_clean_remove_found) (simp_all add: wq_inv_def)

lemma pool_clean_RemoveWorkItems_loop:
  "wq_inv s \<Longrightarrow> pool_clean s \<Longrightarrow> pool_clean (snd (RemoveWorkItems_loop items n s))"
  by (induction items n s rule: RemoveWorkItems_loop.induct)
     (auto simp: wq_inv_remove_found pool_clean_remove_queued)

lemma pool_clean_PurgeCompleted:
  assumes "distinct (workItems s)" and "pool_clean s"
  shows "pool_clean (PurgeCompleted p s)"
  using assms(2)
  by (auto simp: pool_clean_def PurgeCompleted_workItems [OF assms(1)]
      PurgeCompleted_heap [OF assms(1)] PurgeCompleted_poolItems [OF assms(1)])

lemma pool_clean_PurgePool: "pool_clean s \<Longrightarrow> pool_clean (PurgePool s)"
  by (auto simp: pool_clean_def PurgePool_def Let_def PurgePool_loop_drop dest: in_set_dropD)

lemma pool_clean_ProcessItems_step:
  assumes "wq_inv s" and "pool_clean s" and "ProcessItems_step w s = Some s'"
  shows "pool_clean s'"
proof (cases "item (locals s w)")
  case (Some i)
  have w: "w < threads s" and l: "i \<in> set (workItems s)"
    using assms(1) Some by (auto simp: wq_inv_def executing_ok_def)
  have s': "s' = (execute i (w + 1) s)\<lparr>locals := (locals s)(w := (locals s w)\<lparr>item := None\<rparr>)\<rparr>"
    using assms(3) ProcessItems_step_busy [OF Some w] by simp
  have "pool_clean s' = pool_clean (execute i (w + 1) s)"
    unfolding s' by (rule pool_clean_cong) simp_all
  then show ?thesis using assms(2) l by (simp add: pool_clean_execute)
next
  case None
  have "heap s' = heap s \<and> poolItems s' = poolItems s \<and> workItems s' = workItems s"
    using ProcessItems_step_idle [OF None assms(3)] by auto
  then have "pool_clean s' = pool_clean s" by (intro pool_clean_cong) simp_all
  then show ?thesis using assms(2) by simp
qed

lemma pool_clean_worker_tick: "wq_inv s \<Longrightarrow> pool_clean s \<Longrightarrow> pool_clean (worker_tick w s)"
  by (auto simp: worker_tick_def pool_clean_ProcessItems_step split: option.splits)

lemma pool_clean_Complete_loop: "wq_inv s \<Longrightarrow> pool_clean s \<Longrightarrow> pool_clean (Complete_loop p s)"
proof (induction p s rule: Complete_loop.induct)
  case (1 p s)
  show ?case
  proof (cases "queue s")
    case Nil
    then show ?thesis using "1.prems" by (simp add: Complete_loop_Nil)
  next
    case (Cons i rest)
    show ?thesis
    proof (cases "p \<le> priority (heap s i)")
      case True
      have "wq_inv (execute i 0 (s\<lparr>queue := rest\<rparr>))"
        using "1.prems"(1) Cons by (rule wq_inv_execute_front)
      moreover have "pool_clean (execute i 0 (s\<lparr>queue := rest\<rparr>))"
        using "1.prems" Cons by (rule pool_clean_execute_front)
      ultimately have "pool_clean (Complete_loop p (execute i 0 (s\<lparr>queue := rest\<rparr>)))"
        using "1.IH" [OF Cons True] by simp
      then show ?thesis using Cons True by (simp add: Complete_loop_Cons)
    next
      case False
      then show ?thesis using "1.prems" Cons by (simp add: Complete_loop_Cons)
    qed
  qed
qed

lemma pool_clean_HandleBeginFrame_loop:
  "wq_inv s \<Longrightarrow> pool_clean s \<Longrightarrow> pool_clean (HandleBeginFrame_loop usec k s)"
proof (induction usec k s rule: HandleBeginFrame_loop.induct)
  case (1 usec k s)
  show ?case
  proof (cases "queue s")
    case Nil
    then show ?thesis using "1.prems" by (simp add: HandleBeginFrame_loop_Nil)
  next
    case (Cons i rest)
    show ?thesis
    proof (cases "usec k < maxNonThreadedWorkMs s * 1000")
      case True
      have "wq_inv (execute i 0 (s\<lparr>queue := rest\<rparr>))"
        using "1.prems"(1) Cons by (rule wq_inv_execute_front)
      moreover have "pool_clean (execute i 0 (s\<lparr>queue := rest\<rparr>))"
        using "1.prems" Cons by (rule pool_clean_execute_front)
      ultimately have "pool_clean (HandleBeginFrame_loop usec (k + 1) (execute i 0 (s\<lparr>queue := rest\<rparr>)))"
        using "1.IH" [OF Cons True] by simp
      then show ?thesis using Cons True by (simp add: HandleBeginFrame_loop_Cons)
    next
      case False
      then show ?thesis using "1.prems" Cons by (simp add: HandleBeginFrame_loop_Cons)
    qed
  qed
qed

lemma pool_clean_Complete_wait:
  "wq_inv s \<Longrightarrow> pool_clean s \<Longrightarrow> Complete_wait p ts s = Some s' \<Longrightarrow> pool_clean s'"
  by (induction p ts s rule: Complete_wait.induct)
     (auto simp: wq_inv_worker_tick pool_clean_worker_tick split: if_splits)

lemma pool_clean_Complete_drain:
  "wq_inv s \<Longrightarrow> pool_clean s \<Longrightarrow> Complete_drain p ts s = Some s' \<Longrightarrow> pool_clean s'"
proof (induction p ts s rule: Complete_drain.induct)
  case (1 p s)
  then show ?case by simp
next
  case (2 p w ts s)
  then show ?case by (simp add: wq_inv_worker_tick pool_clean_worker_tick)
next
  case (3 p ts s)
  show ?case
  proof (cases "queue s")
    case Nil
    then show ?thesis using 3 by (auto dest: pool_clean_Complete_wait)
  next
    case (Cons i rest)
    show ?thesis
    proof (cases "p \<le> priority (heap s i)")
      case True
      have "wq_inv (execute i 0 (s\<lparr>queue := rest\<rparr>))"
        using "3.prems"(1) Cons by (rule wq_inv_execute_front)
      moreover have "pool_clean (execute i 0 (s\<lparr>queue := rest\<rparr>))"
        using "3.prems"(1,2) Cons by (rule pool_clean_execute_front)
      ultimately show ?thesis using 3 Cons True by simp
    next
      case False
      then show ?thesis using 3 Cons by (auto dest: pool_clean_Complete_wait)
    qed
  qed
qed

lemma pool_clean_flags:
  "pool_clean (s\<lparr>completing := b\<rparr>) = pool_clean s"
  "pool_clean (Pause s) = pool_clean s" "pool_clean (Resume s) = pool_clean s"
  by (simp_all add: pool_clean_def Pause_def Resume_def)

lemma Pause_workItems: "workItems (Pause s) = workItems s"
  by (simp add: Pause_def)

lemma pool_clean_Complete:
  assumes "wq_inv s" and "pool_clean s" and "Complete p ts s = Some s'"
  shows "pool_clean s'"
proof (cases "threads s = 0")
  case True
  let ?t = "Complete_loop p (s\<lparr>completing := True\<rparr>)"
  have s': "s' = (PurgeCompleted p ?t)\<lparr>completing := False\<rparr>"
    using assms(3) True by (simp add: Complete_def)
  have inv: "wq_inv (s\<lparr>completing := True\<rparr>)" using assms(1) by (simp add: wq_inv_completing)
  then have "pool_clean ?t" using assms(2) by (intro pool_clean_Complete_loop) (simp_all add: pool_clean_flags)
  moreover have "distinct (workItems ?t)"
    using wq_inv_Complete_loop [OF inv, of p] by (simp add: wq_inv_def)
  ultimately show ?thesis by (simp add: s' pool_clean_flags pool_clean_PurgeCompleted)
next
  case False
  then obtain s1 where d: "Complete_drain p ts (Resume (s\<lparr>completing := True\<rparr>)) = Some s1"
    and s': "s' = (PurgeCompleted p (if queue s1 = [] then Pause s1 else s1))\<lparr>completing := False\<rparr>"
    using assms(3) by (auto simp: Complete_def split: option.splits)
  have i0: "wq_inv (Resume (s\<lparr>completing := True\<rparr>))"
    using assms(1) by (simp add: wq_inv_Resume wq_inv_completing)
  have p0: "pool_clean (Resume (s\<lparr>completing := True\<rparr>))"
    using assms(2) by (simp add: pool_clean_flags)
  have "wq_inv s1" using i0 d by (rule wq_inv_Complete_drain)
  moreover have "pool_clean s1" using i0 p0 d by (rule pool_clean_Complete_drain)
  ultimately have "distinct (workItems (if queue s1 = [] then Pause s1 else s1))"
    and "pool_clean (if queue s1 = [] then Pause s1 else s1)"
    using Pause_workItems [of s1] by (simp_all add: pool_clean_flags wq_inv_def)
  then have "pool_clean (PurgeCompleted p (if queue s1 = [] then Pause s1 else s1))"
    by (rule pool_clean_PurgeCompleted)
  then show ?thesis unfolding s' by (simp only: pool_clean_flags)
qed

lemma pool_clean_HandleBeginFrame:
  assumes "wq_inv s" and "pool_clean s"
  shows "pool_clean (HandleBeginFrame usec s)"
proof -
  let ?t = "if threads s = 0 \<and> queue s \<noteq> [] then HandleBeginFrame_loop usec 0 s else s"
  have "wq_inv ?t" using assms(1) by (simp add: wq_inv_HandleBeginFrame_loop)
  then have "distinct (workItems ?t)" by (simp add: wq_inv_def)
  moreover have "pool_clean ?t" using assms by (simp add: pool_clean_HandleBeginFrame_loop)
  ultimately have "pool_clean (PurgeCompleted 0 ?t)" by (rule pool_clean_PurgeCompleted)
  then show ?thesis by (simp add: HandleBeginFrame_def pool_clean_PurgePool)
qed

lemma pool_clean_AddWorkItem:
  assumes "pool_clean s" and "a \<notin> set (poolItems s)" and "AddWorkItem a s = Inr s'"
  shows "pool_clean s'"
  using assms by (auto simp: AddWorkItem_def pool_clean_def Let_def split: if_splits)

lemma pool_clean_apply_op:
  assumes "wq_inv s" and "pool_clean s" and "permitted x s" and "apply_op x s = Some s'"
  shows "pool_clean s'"
proof (cases x)
  case (OpCreateThreads b n)
  have "pool_clean s' = pool_clean s"
    using assms(4) OpCreateThreads
    by (intro pool_clean_cong) (auto simp: CreateThreads_def Pause_def split: if_splits)
  then show ?thesis using assms(2) by simp
next
  case (OpGetFreeItem a v)
  then show ?thesis using assms
    by (auto simp: GetFreeItem_def pool_clean_def split: if_splits list.splits)
next
  case (OpWrite a v)
  then show ?thesis using assms by (auto simp: pool_clean_def split: if_splits)
next
  case (OpAddWorkItem a)
  then show ?thesis
    using assms by (auto simp: sum_option_def split: sum.splits dest: pool_clean_AddWorkItem)
next
  case (OpRemoveWorkItem a)
  then show ?thesis
    using assms
    by (auto simp: sum_option_def RemoveWorkItem_def wq_inv_def
        split: sum.splits if_splits intro: pool_clean_remove_found)
next
  case (OpRemoveWorkItems as)
  then show ?thesis
    using assms pool_clean_RemoveWorkItems_loop [of s as 0]
    by (auto simp: sum_option_def RemoveWorkItems_def split: sum.splits if_splits)
next
  case OpPause
  then show ?thesis using assms by (auto simp: pool_clean_flags)
next
  case OpResume
  then show ?thesis using assms by (auto simp: pool_clean_flags)
next
  case (OpComplete p ts)
  then show ?thesis using assms by (auto dest: pool_clean_Complete)
next
  case (OpPurgeCompleted p)
  then show ?thesis using assms by (auto simp: pool_clean_PurgeCompleted wq_inv_def)
next
  case OpPurgePool
  then show ?thesis using assms by (auto simp: pool_clean_PurgePool)
next
  case (OpBeginFrame usec)
  then show ?thesis using assms by (auto simp: pool_clean_HandleBeginFrame)
next
  case OpDequeue
  then show ?thesis using assms by (auto split: list.splits intro: pool_clean_execute_front)
next
  case (OpWorker w)
  then show ?thesis using assms by (auto dest: pool_clean_ProcessItems_step)
qed

lemma pool_clean_run_owned:
  "wq_inv s \<Longrightarrow> pool_clean s \<Longrightarrow> run_owned ops s = Some s' \<Longrightarrow> pool_clean s'"
proof (induction ops arbitrary: s)
  case Nil
  then show ?case by simp
next
  case (Cons x xs)
  from Cons.prems(3) obtain t where t: "permitted x s" "apply_op x s = Some t" "run_owned xs t = Some s'"
    by (auto split: if_splits option.splits)
  have "wq_inv t" using Cons.prems(1) t(2) by (rule wq_inv_apply_op)
  moreover have "pool_clean t" using Cons.prems(1,2) t(1,2) by (rule pool_clean_apply_op)
  ultimately show ?case using t(3) by (rule Cons.IH)
qed

lemma reachable_owned_clean:
  assumes "reachable_owned s"
  shows "pool_clean s"
proof -
  obtain h ops where "run_owned ops (WorkQueue_new h) = Some s"
    using assms by (auto simp: reachable_owned_def)
  with wq_inv_new pool_clean_new show ?thesis by (rule pool_clean_run_owned)
qed

lemma purge_then_get:
  assumes "distinct (workItems s)" and "pool_clean s" and "i \<in> set (workItems s)"
    and "pooled (heap s i)" and "completed (heap s i)" and "p \<le> priority (heap s i)"
  shows "i \<notin> set (workItems (PurgeCompleted p s))"
    and "i \<in> set (poolItems (PurgeCompleted p s))"
    and "fst (GetFreeItem alloc (PurgeCompleted p s)) \<in> set (poolItems (PurgeCompleted p s))"
    and "heap (snd (GetFreeItem alloc (PurgeCompleted p s)))
           (fst (GetFreeItem alloc (PurgeCompleted p s))) = recycled"
    and "poolItems (snd (GetFreeItem alloc (PurgeCompleted p s))) = tl (poolItems (PurgeCompleted p s))"
proof -
  let ?t = "PurgeCompleted p s"
  have c: "pool_clean ?t" using assms(1,2) by (rule pool_clean_PurgeCompleted)
  show 1: "i \<notin> set (workItems ?t)"
    using assms by (simp add: PurgeCompleted_workItems purged_def)
  show 2: "i \<in> set (poolItems ?t)"
    using assms by (simp add: PurgeCompleted_poolItems purged_def)
  then obtain j rest where jr: "poolItems ?t = j # rest" by (cases "poolItems ?t") auto
  then have g: "GetFreeItem alloc ?t = (j, ?t\<lparr>poolItems := rest\<rparr>)"
    by (simp add: GetFreeItem_def)
  have "heap ?t j = recycled" using c jr by (simp add: pool_clean_def)
  then show "fst (GetFreeItem alloc ?t) \<in> set (poolItems ?t)"
    and "heap (snd (GetFreeItem alloc ?t)) (fst (GetFreeItem alloc ?t)) = recycled"
    and "poolItems (snd (GetFreeItem alloc ?t)) = tl (poolItems ?t)"
    using jr by (simp_all add: g)
qed

lemma GetFreeItem_clean:
  assumes "pool_clean s" and "poolItems s \<noteq> []"
  shows "fst (GetFreeItem alloc s) = hd (poolItems s)"
    and "heap (snd (GetFreeItem alloc s)) (fst (GetFreeItem alloc s)) = recycled"
    and "poolItems (snd (GetFreeItem alloc s)) = tl (poolItems s)"
proof -
  obtain j rest where jr: "poolItems s = j # rest" using assms(2) by (cases "poolItems s") auto
  then have g: "GetFreeItem alloc s = (j, s\<lparr>poolItems := rest\<rparr>)" by (simp add: GetFreeItem_def)
  have "heap s j = recycled" using assms(1) jr by (simp add: pool_clean_def)
  then show "fst (GetFreeItem alloc s) = hd (poolItems s)"
    and "heap (snd (GetFreeItem alloc s)) (fst (GetFreeItem alloc s)) = recycled"
    and "poolItems (snd (GetFreeItem alloc s)) = tl (poolItems s)"
    using jr by (simp_all add: g)
qed

text \<open>
  Claim C4, as the specification states it, fails in one point: the priority that
  \<^verbatim>\<open>ReturnToPool\<close> writes is not the lowest one. With priorities served from the highest
  value down, \<^verbatim>\<open>M_MAX_UNSIGNED\<close> is the highest priority there is: the recycled item 1
  ranks above item 2, whose priority is 5.
\<close>

theorem ReturnToPool_priority_counterexample:
  "priority (heap (ReturnToPool 1 (WorkQueue_new items_pooled)) 1) = 0xFFFFFFFF \<and>
   priority (items_pooled 2) < priority (heap (ReturnToPool 1 (WorkQueue_new items_pooled)) 1)"
  by (simp add: ReturnToPool_def WorkQueue_new_def items_pooled_def M_MAX_UNSIGNED_def
      word_less_nat_alt)

text \<open>
  Claim C4, amended. \<^verbatim>\<open>ReturnToPool\<close> appends an item to the free list only if it is
  pooled, and first resets it: the work function and the three context pointers are null,
  the priority is \<^verbatim>\<open>M_MAX_UNSIGNED\<close>, the largest value of the type (the highest priority,
  not the lowest), and \<^verbatim>\<open>sendEvent_\<close> and \<^verbatim>\<open>completed_\<close> are false. An item that is
  not pooled is dropped: nothing changes. Consequently, when the live list has no
  repetitions and the free list is clean (each of its items is reset and not live), a
  pooled item of the live list that is completed and has a priority of at least \<open>q\<close> is
  moved by \<^verbatim>\<open>PurgeCompleted(q)\<close> from the live list to the free list, the free list is
  clean again, and the following \<^verbatim>\<open>GetFreeItem\<close> returns an item of the free list with
  exactly the reset fields. In general \<^verbatim>\<open>GetFreeItem\<close> on a clean, non-empty free list
  returns its front item, with the reset fields. Both conditions hold in every state of a
  run from the constructor in which the submitter neither writes nor submits an item while
  it is in the free list.
\<close>

theorem ReturnToPool_recycles:
  "(pooled (heap s i) \<longrightarrow>
      ReturnToPool i s = s\<lparr>heap := (heap s)(i := recycled), poolItems := poolItems s @ [i]\<rparr>) \<and>
   (\<not> pooled (heap s i) \<longrightarrow> ReturnToPool i s = s) \<and>
   (\<forall>p. p \<le> priority recycled) \<and>
   (distinct (workItems s) \<and> pool_clean s \<and> i \<in> set (workItems s) \<and> pooled (heap s i) \<and>
    completed (heap s i) \<and> q \<le> priority (heap s i) \<longrightarrow>
      i \<notin> set (workItems (PurgeCompleted q s)) \<and>
      i \<in> set (poolItems (PurgeCompleted q s)) \<and>
      pool_clean (PurgeCompleted q s) \<and>
      fst (GetFreeItem alloc (PurgeCompleted q s)) \<in> set (poolItems (PurgeCompleted q s)) \<and>
      heap (snd (GetFreeItem alloc (PurgeCompleted q s)))
        (fst (GetFreeItem alloc (PurgeCompleted q s))) = recycled) \<and>
   (pool_clean s \<and> poolItems s \<noteq> [] \<longrightarrow>
      fst (GetFreeItem alloc s) = hd (poolItems s) \<and>
      heap (snd (GetFreeItem alloc s)) (fst (GetFreeItem alloc s)) = recycled) \<and>
   (reachable_owned s \<longrightarrow> distinct (workItems s) \<and> pool_clean s)"
proof -
  have 1: "ReturnToPool i s = s\<lparr>heap := (heap s)(i := recycled), poolItems := poolItems s @ [i]\<rparr>"
    if "pooled (heap s i)" using that by (rule ReturnToPool_pooled)
  have 2: "ReturnToPool i s = s" if "\<not> pooled (heap s i)"
    using that by (simp add: ReturnToPool_def)
  have 3: "\<forall>p. p \<le> priority recycled"
    by (simp add: recycled_def M_MAX_UNSIGNED_greatest)
  have 4: "i \<notin> set (workItems (PurgeCompleted q s)) \<and>
      i \<in> set (poolItems (PurgeCompleted q s)) \<and>
      pool_clean (PurgeCompleted q s) \<and>
      fst (GetFreeItem alloc (PurgeCompleted q s)) \<in> set (poolItems (PurgeCompleted q s)) \<and>
      heap (snd (GetFreeItem alloc (PurgeCompleted q s)))
        (fst (GetFreeItem alloc (PurgeCompleted q s))) = recycled"
    if "distinct (workItems s) \<and> pool_clean s \<and> i \<in> set (workItems s) \<and> pooled (heap s i) \<and>
        completed (heap s i) \<and> q \<le> priority (heap s i)"
    using that purge_then_get(1-4) [of s i q] pool_clean_PurgeCompleted [of s q] by blast
  have 5: "fst (GetFreeItem alloc s) = hd (poolItems s) \<and>
      heap (snd (GetFreeItem alloc s)) (fst (GetFreeItem alloc s)) = recycled"
    if "pool_clean s \<and> poolItems s \<noteq> []"
    using that GetFreeItem_clean(1,2) [of s alloc] by blast
  have 6: "distinct (workItems s) \<and> pool_clean s" if "reachable_owned s"
    using that reachable_owned_clean reachable_inv [OF reachable_owned_reachable]
    by (simp add: wq_inv_def)
  from 1 2 3 4 5 6 show ?thesis by blast
qed

theorem ReturnToPool_recycles_witness:
  "\<exists>s. run_owned [OpAddWorkItem 1, OpDequeue] (WorkQueue_new items_pooled) = Some s \<and>
     workItems s = [1] \<and> poolItems s = [] \<and> completed (heap s 1) \<and> start (heap s 1) = 100 \<and>
     distinct (workItems s) \<and> pool_clean s \<and>
     ReturnToPool 1 s = s\<lparr>heap := (heap s)(1 := recycled), poolItems := poolItems s @ [1]\<rparr> \<and>
     ReturnToPool 2 s = s \<and>
     workItems (PurgeCompleted 0 s) = [] \<and> poolItems (PurgeCompleted 0 s) = [1] \<and>
     fst (GetFreeItem (9, items_pooled 2) (PurgeCompleted 0 s)) = 1 \<and>
     heap (snd (GetFreeItem (9, items_pooled 2) (PurgeCompleted 0 s))) 1 = recycled"
proof -
  define s where "s = the (run_owned [OpAddWorkItem 1, OpDequeue] (WorkQueue_new items_pooled))"
  let ?t = "PurgeCompleted 0 s"
  let ?a = "(9, items_pooled 2)"
  have r: "run_owned [OpAddWorkItem 1, OpDequeue] (WorkQueue_new items_pooled) = Some s"
    unfolding s_def by (simp add: eval_defs items_pooled_def)
  have f: "workItems s = [1]" "poolItems s = []" "completed (heap s 1)" "start (heap s 1) = 100"
    "pooled (heap s 1)" "\<not> pooled (heap s 2)" "0 \<le> priority (heap s 1)"
    unfolding s_def by (simp_all add: eval_defs items_pooled_def)
  have o: "reachable_owned s" unfolding reachable_owned_def using r by blast
  note t1 = ReturnToPool_recycles [of s 1 0 ?a]
  note t2 = ReturnToPool_recycles [of s 2 0 ?a]
  note t3 = ReturnToPool_recycles [of ?t 1 0 ?a]
  have c: "distinct (workItems s) \<and> pool_clean s" using t1 o by blast
  have a: "ReturnToPool 1 s = s\<lparr>heap := (heap s)(1 := recycled), poolItems := poolItems s @ [1]\<rparr>"
    using t1 f(5) by blast
  have b: "ReturnToPool 2 s = s" using t2 f(6) by blast
  have h: "distinct (workItems s) \<and> pool_clean s \<and> 1 \<in> set (workItems s) \<and> pooled (heap s 1) \<and>
    completed (heap s 1) \<and> 0 \<le> priority (heap s 1)"
    using c f by simp
  have d: "1 \<notin> set (workItems ?t) \<and> 1 \<in> set (poolItems ?t) \<and> pool_clean ?t \<and>
      heap (snd (GetFreeItem ?a ?t)) (fst (GetFreeItem ?a ?t)) = recycled"
    using t1 h by blast
  have w: "workItems ?t = []" "poolItems ?t = [1]"
    using c f by (simp_all add: PurgeCompleted_workItems PurgeCompleted_poolItems purged_def)
  have "pool_clean ?t \<and> poolItems ?t \<noteq> []" using d w by simp
  then have "fst (GetFreeItem ?a ?t) = hd (poolItems ?t)" using t3 by blast
  then have g: "fst (GetFreeItem ?a ?t) = 1" using w by simp
  then have "heap (snd (GetFreeItem ?a ?t)) 1 = recycled" using d by simp
  with r f(1-4) c a b w g show ?thesis by blast
qed

section \<open>Removing queued items\<close>

lemma remove_found_fields:
  "queue (remove_found i s) = remove1 i (queue s)"
  "workItems (remove_found i s) = remove1 i (workItems s)"
  "heap (remove_found i s) = heap (ReturnToPool i s)"
  "poolItems (remove_found i s) = poolItems (ReturnToPool i s)"
  "paused (remove_found i s) = paused s"
  by (simp_all add: remove_found_effect ReturnToPool_heap ReturnToPool_poolItems)

text \<open>
  Removal in a state that is not paused, where the mutex can be taken.
  \<^verbatim>\<open>RemoveWorkItem\<close> returns true exactly when the item is in the queue; then the item
  has left the queue and the live list and was passed to \<^verbatim>\<open>ReturnToPool\<close>; otherwise
  nothing changes. \<^verbatim>\<open>RemoveWorkItems\<close> counts the items of its list that are in the
  queue and removes exactly these.
\<close>

lemma RemoveWorkItem_running:
  assumes "wq_inv s" and "\<not> paused s"
  shows "\<exists>b s'. RemoveWorkItem i s = Inr (b, s') \<and> (b \<longleftrightarrow> i \<in> set (queue s)) \<and>
           (b \<longrightarrow> s' = remove_found i s \<and> i \<notin> set (queue s') \<and> i \<notin> set (workItems s')) \<and>
           (\<not> b \<longrightarrow> s' = s)"
proof -
  have sub: "set (queue s) \<subseteq> set (workItems s)" and nn: "nullptr \<notin> set (workItems s)"
    and d: "distinct (queue s)" "distinct (workItems s)"
    using assms(1) by (simp_all add: wq_inv_def queued_live_def)
  show ?thesis
  proof (cases "i \<in> set (queue s)")
    case True
    then have "i \<noteq> nullptr" "i \<in> set (workItems s)" using sub nn by auto
    then have "RemoveWorkItem i s = Inr (True, remove_found i s)"
      using True assms(2) by (simp add: RemoveWorkItem_def)
    then show ?thesis using True d by (auto simp: remove_found_fields)
  next
    case False
    then have "RemoveWorkItem i s = Inr (False, s)"
      using assms(2) by (simp add: RemoveWorkItem_def)
    then show ?thesis using False by auto
  qed
qed

lemma RemoveWorkItems_loop_count:
  assumes "wq_inv s" and "RemoveWorkItems_loop items n s = (n', s')"
  shows "n' = n + card (set items \<inter> set (queue s)) \<and>
         queue s' = filter (\<lambda>x. x \<notin> set items) (queue s) \<and>
         workItems s' = filter (\<lambda>x. \<not> (x \<in> set items \<and> x \<in> set (queue s))) (workItems s)"
  using assms
proof (induction items arbitrary: n s)
  case Nil
  then show ?case by simp
next
  case (Cons i rest)
  have sub: "set (queue s) \<subseteq> set (workItems s)"
    and d: "distinct (queue s)" "distinct (workItems s)"
    using Cons.prems(1) by (simp_all add: wq_inv_def queued_live_def)
  show ?case
  proof (cases "i \<in> set (queue s)")
    case True
    then have live: "i \<in> set (workItems s)" using sub by auto
    let ?t = "remove_found i s"
    have inv: "wq_inv ?t" using Cons.prems(1) True by (rule wq_inv_remove_found)
    have l: "RemoveWorkItems_loop rest (n + 1) ?t = (n', s')"
      using Cons.prems(2) True live by simp
    note ih = Cons.IH [OF inv l]
    have q: "queue ?t = filter (\<lambda>x. x \<noteq> i) (queue s)"
      using d(1) by (simp add: remove_found_fields distinct_remove1_removeAll removeAll_filter_not_eq)
        (metis)
    have w: "workItems ?t = filter (\<lambda>x. x \<noteq> i) (workItems s)"
      using d(2) by (simp add: remove_found_fields distinct_remove1_removeAll removeAll_filter_not_eq)
        (metis)
    have "set (i # rest) \<inter> set (queue s) = insert i (set rest \<inter> set (queue ?t))"
      using True by (auto simp: q)
    moreover have "i \<notin> set rest \<inter> set (queue ?t)" by (simp add: q)
    ultimately have c: "card (set (i # rest) \<inter> set (queue s)) = Suc (card (set rest \<inter> set (queue ?t)))"
      by (simp add: card_insert_if)
    have fq: "filter (\<lambda>x. x \<notin> set rest) (queue ?t) = filter (\<lambda>x. x \<notin> set (i # rest)) (queue s)"
      by (auto simp: q intro: filter_cong)
    have fw: "filter (\<lambda>x. \<not> (x \<in> set rest \<and> x \<in> set (queue ?t))) (workItems ?t) =
              filter (\<lambda>x. \<not> (x \<in> set (i # rest) \<and> x \<in> set (queue s))) (workItems s)"
      using True by (auto simp: q w intro: filter_cong)
    show ?thesis using ih c fq fw by simp
  next
    case False
    then have l: "RemoveWorkItems_loop rest n s = (n', s')"
      using Cons.prems(2) by simp
    note ih = Cons.IH [OF Cons.prems(1) l]
    have "set (i # rest) \<inter> set (queue s) = set rest \<inter> set (queue s)" using False by auto
    moreover have "filter (\<lambda>x. x \<notin> set (i # rest)) (queue s) = filter (\<lambda>x. x \<notin> set rest) (queue s)"
      using False by (auto intro: filter_cong)
    moreover have "filter (\<lambda>x. \<not> (x \<in> set (i # rest) \<and> x \<in> set (queue s))) (workItems s) =
        filter (\<lambda>x. \<not> (x \<in> set rest \<and> x \<in> set (queue s))) (workItems s)"
      using False by (auto intro: filter_cong)
    ultimately show ?thesis using ih by simp
  qed
qed

text \<open>
  Claim C6 fails on the code in a paused state. \<^verbatim>\<open>Pause\<close> keeps \<^verbatim>\<open>queueMutex_\<close>
  locked, and \<^verbatim>\<open>RemoveWorkItem\<close> and \<^verbatim>\<open>RemoveWorkItems\<close> begin with a
  \<^verbatim>\<open>lock_guard<mutex>\<close> on it: the thread locks a \<^verbatim>\<open>std::mutex\<close> that it holds
  itself, and the call does not return. After \<^verbatim>\<open>Pause()\<close> and \<^verbatim>\<open>AddWorkItem(1)\<close> on a
  scheduler without worker threads, item 1 is in the queue and in the live list, and neither
  call removes it. \<^verbatim>\<open>AddWorkItem\<close> tests \<^verbatim>\<open>paused_\<close> before it locks, and
  \<^verbatim>\<open>Complete\<close> calls \<^verbatim>\<open>Resume\<close> first; the two removal functions do neither.
\<close>

theorem RemoveWorkItem_paused_relock:
  "run [OpPause, OpAddWorkItem 1] (WorkQueue_new items_5153) = Some paused_with_item \<and>
   threads paused_with_item = 0 \<and> paused paused_with_item \<and> queue paused_with_item = [1] \<and>
   workItems paused_with_item = [1] \<and>
   RemoveWorkItem 1 paused_with_item = Inl Relock \<and>
   RemoveWorkItems [1] paused_with_item = Inl Relock"
  by (simp add: paused_with_item_def eval_defs thread_defs items_5153_def RemoveWorkItem_def
      RemoveWorkItems_def)

section \<open>The frame hook completes the queue without workers\<close>

lemma frame_count_le: "frame_count usec k b q \<le> length q"
  by (induction q arbitrary: k) auto

lemma frame_count_within: "j < frame_count usec k b q \<Longrightarrow> usec (k + j) < b"
proof (induction q arbitrary: k j)
  case Nil
  then show ?case by simp
next
  case (Cons i rest)
  show ?case
  proof (cases j)
    case 0
    then show ?thesis using Cons.prems by (simp split: if_splits)
  next
    case (Suc m)
    then have "m < frame_count usec (k + 1) b rest"
      using Cons.prems by (simp split: if_splits)
    then have "usec (k + 1 + m) < b" by (rule Cons.IH)
    then show ?thesis using Suc by (simp add: ac_simps)
  qed
qed

lemma frame_count_stop:
  "frame_count usec k b q = length q \<or> \<not> usec (k + frame_count usec k b q) < b"
proof (induction q arbitrary: k)
  case Nil
  then show ?case by simp
next
  case (Cons i rest)
  show ?case using Cons [of "k + 1"] by (auto simp: ac_simps)
qed

lemma frame_count_pos: "q \<noteq> [] \<Longrightarrow> usec k < b \<Longrightarrow> 0 < frame_count usec k b q"
  by (cases q) auto

lemma HandleBeginFrame_loop_fields:
  "queue (HandleBeginFrame_loop usec k s) =
     drop (frame_count usec k (maxNonThreadedWorkMs s * 1000) (queue s)) (queue s) \<and>
   calls (HandleBeginFrame_loop usec k s) =
     calls s @ map (\<lambda>i. (i, 0))
       (take (frame_count usec k (maxNonThreadedWorkMs s * 1000) (queue s)) (queue s)) \<and>
   (\<forall>i \<in> set (take (frame_count usec k (maxNonThreadedWorkMs s * 1000) (queue s)) (queue s)).
      completed (heap (HandleBeginFrame_loop usec k s) i)) \<and>
   (\<forall>i. completed (heap s i) \<longrightarrow> completed (heap (HandleBeginFrame_loop usec k s) i)) \<and>
   threads (HandleBeginFrame_loop usec k s) = threads s \<and>
   maxNonThreadedWorkMs (HandleBeginFrame_loop usec k s) = maxNonThreadedWorkMs s"
proof (induction usec k s rule: HandleBeginFrame_loop.induct)
  case (1 usec k s)
  show ?case
  proof (cases "queue s")
    case Nil
    then show ?thesis by (simp add: HandleBeginFrame_loop_Nil)
  next
    case (Cons i rest)
    show ?thesis
    proof (cases "usec k < maxNonThreadedWorkMs s * 1000")
      case True
      let ?t = "execute i 0 (s\<lparr>queue := rest\<rparr>)"
      have t: "queue ?t = rest" "maxNonThreadedWorkMs ?t = maxNonThreadedWorkMs s"
        "calls ?t = calls s @ [(i, 0)]" "threads ?t = threads s" "completed (heap ?t i)"
        "\<And>j. completed (heap s j) \<Longrightarrow> completed (heap ?t j)"
        by (simp_all add: execute_def)
      have e: "HandleBeginFrame_loop usec k s = HandleBeginFrame_loop usec (k + 1) ?t"
        using Cons True by (simp add: HandleBeginFrame_loop_Cons)
      show ?thesis
        unfolding e using "1.IH" [OF Cons True] Cons True t(5,6)
        by (simp add: t(1-4))
    next
      case False
      then show ?thesis using Cons by (simp add: HandleBeginFrame_loop_Cons)
    qed
  qed
qed

lemma PurgePool_frame:
  "queue (PurgePool s) = queue s" "calls (PurgePool s) = calls s"
  "threads (PurgePool s) = threads s" "maxNonThreadedWorkMs (PurgePool s) = maxNonThreadedWorkMs s"
  by (simp_all add: PurgePool_def Let_def)

lemma HandleBeginFrame_fields:
  assumes "threads s = 0"
  shows "queue (HandleBeginFrame usec s) =
           drop (frame_count usec 0 (maxNonThreadedWorkMs s * 1000) (queue s)) (queue s)"
    and "calls (HandleBeginFrame usec s) =
           calls s @ map (\<lambda>i. (i, 0))
             (take (frame_count usec 0 (maxNonThreadedWorkMs s * 1000) (queue s)) (queue s))"
    and "threads (HandleBeginFrame usec s) = 0"
    and "maxNonThreadedWorkMs (HandleBeginFrame usec s) = maxNonThreadedWorkMs s"
  using assms HandleBeginFrame_loop_fields [of usec 0 s]
  by (auto simp: HandleBeginFrame_def PurgePool_frame PurgeCompleted_frame)

lemma frames_complete_all:
  assumes "threads s = 0"
    and "\<forall>usec \<in> set clocks. usec 0 < maxNonThreadedWorkMs s * 1000"
    and "length (queue s) \<le> length clocks"
  shows "queue (frames clocks s) = [] \<and>
         calls (frames clocks s) = calls s @ map (\<lambda>i. (i, 0)) (queue s)"
  using assms
proof (induction clocks arbitrary: s)
  case Nil
  then show ?case by simp
next
  case (Cons usec rest)
  let ?b = "maxNonThreadedWorkMs s * 1000"
  let ?n = "frame_count usec 0 ?b (queue s)"
  let ?t = "HandleBeginFrame usec s"
  note f = HandleBeginFrame_fields [OF Cons.prems(1), of usec]
  have n: "queue s \<noteq> [] \<Longrightarrow> 0 < ?n"
    using Cons.prems(2) by (intro frame_count_pos) simp_all
  have len: "length (queue ?t) \<le> length rest"
    using Cons.prems(3) n by (cases "queue s = []") (auto simp: f(1))
  have "queue (frames rest ?t) = [] \<and>
        calls (frames rest ?t) = calls ?t @ map (\<lambda>i. (i, 0)) (queue ?t)"
    using Cons.prems(2) len by (intro Cons.IH) (simp_all add: f)
  then show ?case
    by (simp add: f(1,2) flip: map_append)
qed

text \<open>
  Claim C10. Without worker threads one call of the frame hook takes items from the front
  of the queue, calls each work function with thread index 0 and marks the item completed;
  it stops when the queue is empty or, at the test before the next item, the timer has
  reached the budget of \<^verbatim>\<open>maxNonThreadedWorkMs_\<close> milliseconds, which the constructor sets
  to 5. With or without worker threads the hook then calls \<^verbatim>\<open>PurgeCompleted(0)\<close> and
  \<^verbatim>\<open>PurgePool()\<close>, in this order. The timer is an input of the model. Whenever it is below
  the budget at the first test of a call (it was started just before), the call runs at
  least one item; so as many such calls as there are queued items run all of them, in the
  order of the queue, and leave the queue empty.
\<close>

theorem HandleBeginFrame_fallback:
  "(threads s = 0 \<longrightarrow>
      (\<exists>n \<le> length (queue s).
         queue (HandleBeginFrame_loop usec 0 s) = drop n (queue s) \<and>
         calls (HandleBeginFrame_loop usec 0 s) = calls s @ map (\<lambda>i. (i, 0)) (take n (queue s)) \<and>
         (\<forall>i \<in> set (take n (queue s)). completed (heap (HandleBeginFrame_loop usec 0 s) i)) \<and>
         (\<forall>k < n. usec k < maxNonThreadedWorkMs s * 1000) \<and>
         (n = length (queue s) \<or> maxNonThreadedWorkMs s * 1000 \<le> usec n)) \<and>
      HandleBeginFrame usec s = PurgePool (PurgeCompleted 0 (HandleBeginFrame_loop usec 0 s))) \<and>
   (threads s \<noteq> 0 \<longrightarrow> HandleBeginFrame usec s = PurgePool (PurgeCompleted 0 s)) \<and>
   maxNonThreadedWorkMs (WorkQueue_new h) = 5 \<and>
   (threads s = 0 \<and> (\<forall>usec \<in> set clocks. usec 0 < maxNonThreadedWorkMs s * 1000) \<and>
    length (queue s) \<le> length clocks \<longrightarrow>
      queue (frames clocks s) = [] \<and>
      calls (frames clocks s) = calls s @ map (\<lambda>i. (i, 0)) (queue s))"
proof (intro conjI impI)
  let ?n = "frame_count usec 0 (maxNonThreadedWorkMs s * 1000) (queue s)"
  note l = HandleBeginFrame_loop_fields [of usec 0 s]
  have "?n \<le> length (queue s)" by (rule frame_count_le)
  moreover have "\<forall>k < ?n. usec k < maxNonThreadedWorkMs s * 1000"
    using frame_count_within [of _ usec 0] by auto
  moreover have "?n = length (queue s) \<or> maxNonThreadedWorkMs s * 1000 \<le> usec ?n"
    using frame_count_stop [of usec 0 "maxNonThreadedWorkMs s * 1000" "queue s"] by auto
  ultimately show "\<exists>n \<le> length (queue s).
         queue (HandleBeginFrame_loop usec 0 s) = drop n (queue s) \<and>
         calls (HandleBeginFrame_loop usec 0 s) = calls s @ map (\<lambda>i. (i, 0)) (take n (queue s)) \<and>
         (\<forall>i \<in> set (take n (queue s)). completed (heap (HandleBeginFrame_loop usec 0 s) i)) \<and>
         (\<forall>k < n. usec k < maxNonThreadedWorkMs s * 1000) \<and>
         (n = length (queue s) \<or> maxNonThreadedWorkMs s * 1000 \<le> usec n)"
    using l by (intro exI [of _ ?n]) simp
next
  assume "threads s = 0"
  then show "HandleBeginFrame usec s = PurgePool (PurgeCompleted 0 (HandleBeginFrame_loop usec 0 s))"
    by (simp add: HandleBeginFrame_def HandleBeginFrame_loop_Nil)
next
  assume "threads s \<noteq> 0"
  then show "HandleBeginFrame usec s = PurgePool (PurgeCompleted 0 s)"
    by (simp add: HandleBeginFrame_def)
next
  show "maxNonThreadedWorkMs (WorkQueue_new h) = 5" by (simp add: WorkQueue_new_def)
next
  assume "threads s = 0 \<and> (\<forall>usec \<in> set clocks. usec 0 < maxNonThreadedWorkMs s * 1000) \<and>
    length (queue s) \<le> length clocks"
  then show "queue (frames clocks s) = []"
    and "calls (frames clocks s) = calls s @ map (\<lambda>i. (i, 0)) (queue s)"
    using frames_complete_all [of s clocks] by simp_all
qed

theorem HandleBeginFrame_fallback_witness:
  "\<exists>s. run [OpAddWorkItem 1, OpAddWorkItem 2, OpAddWorkItem 3, OpAddWorkItem 4]
          (WorkQueue_new items_5153) = Some s \<and>
     queue s = [3, 1, 4, 2] \<and>
     queue (HandleBeginFrame timer_3ms s) = [4, 2] \<and>
     calls (HandleBeginFrame timer_3ms s) = [(3, 0), (1, 0)] \<and>
     queue (frames [timer_3ms, timer_3ms, timer_3ms, timer_3ms] s) = [] \<and>
     calls (frames [timer_3ms, timer_3ms, timer_3ms, timer_3ms] s) = [(3, 0), (1, 0), (4, 0), (2, 0)]"
proof -
  define s where "s = the (run [OpAddWorkItem 1, OpAddWorkItem 2, OpAddWorkItem 3, OpAddWorkItem 4]
          (WorkQueue_new items_5153))"
  have r: "run [OpAddWorkItem 1, OpAddWorkItem 2, OpAddWorkItem 3, OpAddWorkItem 4]
          (WorkQueue_new items_5153) = Some s"
    unfolding s_def by (simp add: eval_defs items_5153_def)
  have v: "queue s = [3, 1, 4, 2]" "threads s = 0" "maxNonThreadedWorkMs s = 5" "calls s = []"
    unfolding s_def by (simp_all add: eval_defs items_5153_def)
  note t = HandleBeginFrame_fallback [of s timer_3ms _ "[timer_3ms, timer_3ms, timer_3ms, timer_3ms]"]
  have h: "threads s = 0 \<and>
      (\<forall>usec \<in> set [timer_3ms, timer_3ms, timer_3ms, timer_3ms]. usec 0 < maxNonThreadedWorkMs s * 1000) \<and>
      length (queue s) \<le> length [timer_3ms, timer_3ms, timer_3ms, timer_3ms]"
    by (simp add: v timer_3ms_def)
  have all: "queue (frames [timer_3ms, timer_3ms, timer_3ms, timer_3ms] s) = []"
    "calls (frames [timer_3ms, timer_3ms, timer_3ms, timer_3ms] s) = calls s @ map (\<lambda>i. (i, 0)) (queue s)"
    using t h by blast+
  obtain n where n: "n \<le> length (queue s)"
    "queue (HandleBeginFrame_loop timer_3ms 0 s) = drop n (queue s)"
    "calls (HandleBeginFrame_loop timer_3ms 0 s) = calls s @ map (\<lambda>i. (i, 0)) (take n (queue s))"
    "\<forall>k < n. timer_3ms k < maxNonThreadedWorkMs s * 1000"
    "n = length (queue s) \<or> maxNonThreadedWorkMs s * 1000 \<le> timer_3ms n"
    and e: "HandleBeginFrame timer_3ms s =
       PurgePool (PurgeCompleted 0 (HandleBeginFrame_loop timer_3ms 0 s))"
    using t v(2) by blast
  have "\<not> 2 < n" using n(4) by (auto simp: v timer_3ms_def)
  moreover have "\<not> n < 2" using n(5) by (auto simp: v timer_3ms_def)
  ultimately have "n = 2" by simp
  then have "queue (HandleBeginFrame timer_3ms s) = [4, 2]"
    "calls (HandleBeginFrame timer_3ms s) = [(3, 0), (1, 0)]"
    using n(2,3) by (simp_all add: e PurgePool_frame PurgeCompleted_frame v)
  with r v(1) all v(4) show ?thesis by simp
qed

section \<open>Pausing\<close>

lemma ProcessItems_step_paused:
  assumes "paused s" and "ProcessItems_step w s = Some s'"
  shows "queue s' = queue s \<and> paused s' \<and>
         (case item (locals s w) of
            None \<Rightarrow> heap s' = heap s \<and> calls s' = calls s
          | Some x \<Rightarrow> heap s' = (heap s)(x := (heap s x)\<lparr>completed := True\<rparr>) \<and>
                      calls s' = calls s @ [(x, w + 1)])"
proof (cases "item (locals s w)")
  case None
  then show ?thesis
    using assms by (auto simp: ProcessItems_step_def Let_def split: if_splits)
next
  case (Some x)
  then show ?thesis
    using assms by (auto simp: ProcessItems_step_def Let_def execute_def split: if_splits)
qed

lemma Complete_loop_calls:
  "calls (Complete_loop p s) =
     calls s @ map (\<lambda>i. (i, 0)) (takeWhile (\<lambda>i. p \<le> priority (heap s i)) (queue s)) \<and>
   paused (Complete_loop p s) = paused s"
proof (induction p s rule: Complete_loop.induct)
  case (1 p s)
  show ?case
  proof (cases "queue s")
    case Nil
    then show ?thesis by (simp add: Complete_loop_Nil)
  next
    case (Cons i rest)
    show ?thesis
    proof (cases "p \<le> priority (heap s i)")
      case True
      let ?t = "execute i 0 (s\<lparr>queue := rest\<rparr>)"
      have t: "queue ?t = rest" "calls ?t = calls s @ [(i, 0)]" "paused ?t = paused s"
        by (simp_all add: execute_def)
      have "takeWhile (\<lambda>j. p \<le> priority (heap ?t j)) rest =
            takeWhile (\<lambda>j. p \<le> priority (heap s j)) rest"
        by (rule takeWhile_cong) (simp_all add: execute_def)
      then show ?thesis
        using "1.IH" [OF Cons True] Cons True by (simp add: Complete_loop_Cons t)
    next
      case False
      then show ?thesis using Cons by (simp add: Complete_loop_Cons)
    qed
  qed
qed

lemma HandleBeginFrame_loop_paused:
  "paused (HandleBeginFrame_loop usec k s) = paused s"
proof (induction usec k s rule: HandleBeginFrame_loop.induct)
  case (1 usec k s)
  show ?case
  proof (cases "queue s")
    case Nil
    then show ?thesis by (simp add: HandleBeginFrame_loop_Nil)
  next
    case (Cons i rest)
    then show ?thesis using "1.IH" [OF Cons]
      by (cases "usec k < maxNonThreadedWorkMs s * 1000")
         (simp_all add: HandleBeginFrame_loop_Cons execute_def)
  qed
qed

lemma fallback_ignores_pause:
  assumes "threads s = 0"
  shows "paused (HandleBeginFrame usec s) = paused s"
    and "calls (HandleBeginFrame usec s) =
           calls s @ map (\<lambda>i. (i, 0))
             (take (frame_count usec 0 (maxNonThreadedWorkMs s * 1000) (queue s)) (queue s))"
    and "Complete p ts s = Some s' \<Longrightarrow>
           paused s' = paused s \<and>
           calls s' = calls s @ map (\<lambda>i. (i, 0))
             (takeWhile (\<lambda>i. p \<le> priority (heap s i)) (queue s))"
proof -
  show "paused (HandleBeginFrame usec s) = paused s"
    by (simp add: HandleBeginFrame_def PurgePool_def Let_def PurgeCompleted_frame
        HandleBeginFrame_loop_paused)
  show "calls (HandleBeginFrame usec s) =
           calls s @ map (\<lambda>i. (i, 0))
             (take (frame_count usec 0 (maxNonThreadedWorkMs s * 1000) (queue s)) (queue s))"
    using assms by (rule HandleBeginFrame_fields)
  assume "Complete p ts s = Some s'"
  then have s': "s' = (PurgeCompleted p (Complete_loop p (s\<lparr>completing := True\<rparr>)))\<lparr>completing := False\<rparr>"
    using assms by (simp add: Complete_def)
  show "paused s' = paused s \<and>
           calls s' = calls s @ map (\<lambda>i. (i, 0))
             (takeWhile (\<lambda>i. p \<le> priority (heap s i)) (queue s))"
    using Complete_loop_calls [of p "s\<lparr>completing := True\<rparr>"]
    by (simp add: s' PurgeCompleted_frame)
qed

text \<open>
  Claim C3, as the specification states it, fails three times. First, a worker that took an
  item from the queue before \<^verbatim>\<open>Pause\<close> runs its work function and sets its completed flag
  while the scheduler is paused: after \<^verbatim>\<open>Pause\<close> item 1 is not completed, and after the
  next step of the worker it is, with the scheduler still paused. Second, an item submitted
  to a paused scheduler completes although \<^verbatim>\<open>Resume\<close> is never called, because
  \<^verbatim>\<open>AddWorkItem\<close> releases the mutex and clears \<^verbatim>\<open>paused_\<close> when worker threads exist.
  Third, without worker threads the pause holds nothing back: item 1, submitted to a paused
  scheduler, is run by \<^verbatim>\<open>Complete(0)\<close>, and just as well by the frame hook, and the
  scheduler is still paused afterwards.
\<close>

theorem pause_counterexample:
  "is_paused (run [OpCreateThreads True 1, OpAddWorkItem 1, OpWorker 0, OpPause]
     (WorkQueue_new items_5153)) \<and>
   \<not> is_completed (run [OpCreateThreads True 1, OpAddWorkItem 1, OpWorker 0, OpPause]
     (WorkQueue_new items_5153)) 1 \<and>
   is_completed (run [OpCreateThreads True 1, OpAddWorkItem 1, OpWorker 0, OpPause, OpWorker 0]
     (WorkQueue_new items_5153)) 1 \<and>
   is_paused (run [OpCreateThreads True 1, OpPause] (WorkQueue_new items_5153)) \<and>
   is_completed (run [OpCreateThreads True 1, OpPause, OpAddWorkItem 1, OpWorker 0, OpWorker 0]
     (WorkQueue_new items_5153)) 1 \<and>
   is_paused (run [OpPause, OpAddWorkItem 1] (WorkQueue_new items_5153)) \<and>
   call_order (run [OpPause, OpAddWorkItem 1] (WorkQueue_new items_5153)) = [] \<and>
   is_paused (run [OpPause, OpAddWorkItem 1, OpComplete 0 []] (WorkQueue_new items_5153)) \<and>
   call_order (run [OpPause, OpAddWorkItem 1, OpComplete 0 []] (WorkQueue_new items_5153)) = [1] \<and>
   is_paused (run [OpPause, OpAddWorkItem 1, OpBeginFrame timer_3ms] (WorkQueue_new items_5153)) \<and>
   call_order (run [OpPause, OpAddWorkItem 1, OpBeginFrame timer_3ms] (WorkQueue_new items_5153)) = [1]"
  by (simp add: eval_defs thread_defs items_5153_def is_paused_def is_completed_def
      Complete_loop.simps HandleBeginFrame_loop.simps HandleBeginFrame_def PurgePool_def
      timer_3ms_def to_int_def)

text \<open>
  Claim C3, amended. While the scheduler is paused no worker takes an item from the queue
  and no worker calls the work function of a queued item: in every reachable paused state
  a step of a worker leaves the queue and the pause as they are, calls the work function
  of no queued item and writes no queued item. The only item a worker can touch is the one
  it had taken from the queue before the pause: it may call its work function and mark it
  completed. A worker that holds no item calls nothing. The pause holds back the workers
  only: without worker threads \<^verbatim>\<open>Complete(p)\<close> and the frame hook take queued items and
  call their work functions on the calling thread, paused or not (\<^verbatim>\<open>Complete(p)\<close> the
  items at the front with a priority of at least \<open>p\<close>, the frame hook those its time
  budget allows), and leave \<^verbatim>\<open>paused_\<close> as it was. \<^verbatim>\<open>Resume\<close> ends the pause, and so
  does \<^verbatim>\<open>AddWorkItem\<close> of a non-null item when worker threads exist (it leaves
  \<^verbatim>\<open>paused_\<close> as it is when there are none), so an item submitted while paused can
  complete without \<^verbatim>\<open>Resume\<close>.
\<close>

theorem pause_excludes_dequeue:
  "(reachable s \<and> paused s \<and> ProcessItems_step w s = Some s' \<longrightarrow>
      queue s' = queue s \<and> paused s' \<and>
      (\<forall>x \<in> set (queue s). heap s' x = heap s x \<and> (x, w + 1) \<notin> set (drop (length (calls s)) (calls s'))) \<and>
      (\<forall>x. item (locals s w) \<noteq> Some x \<longrightarrow> heap s' x = heap s x) \<and>
      (item (locals s w) = None \<longrightarrow> calls s' = calls s)) \<and>
   (threads s \<noteq> 0 \<and> i \<noteq> nullptr \<and> AddWorkItem i s = Inr s' \<longrightarrow> \<not> paused s') \<and>
   (threads s = 0 \<and> AddWorkItem i s = Inr s' \<longrightarrow> paused s' = paused s) \<and>
   (threads s = 0 \<longrightarrow>
      paused (HandleBeginFrame usec s) = paused s \<and>
      calls (HandleBeginFrame usec s) =
        calls s @ map (\<lambda>i. (i, 0))
          (take (frame_count usec 0 (maxNonThreadedWorkMs s * 1000) (queue s)) (queue s))) \<and>
   (threads s = 0 \<and> Complete p ts s = Some s' \<longrightarrow>
      paused s' = paused s \<and>
      calls s' = calls s @ map (\<lambda>i. (i, 0))
        (takeWhile (\<lambda>i. p \<le> priority (heap s i)) (queue s))) \<and>
   \<not> paused (Resume s)"
proof -
  have 1: "queue s' = queue s \<and> paused s' \<and>
      (\<forall>x \<in> set (queue s). heap s' x = heap s x \<and> (x, w + 1) \<notin> set (drop (length (calls s)) (calls s'))) \<and>
      (\<forall>x. item (locals s w) \<noteq> Some x \<longrightarrow> heap s' x = heap s x) \<and>
      (item (locals s w) = None \<longrightarrow> calls s' = calls s)"
    if a: "reachable s \<and> paused s \<and> ProcessItems_step w s = Some s'"
  proof -
    have inv: "wq_inv s" using a by (simp add: reachable_inv)
    note st = ProcessItems_step_paused [of s w s']
    have q: "queue s' = queue s" "paused s'" using a st by simp_all
    have h: "\<forall>x. item (locals s w) \<noteq> Some x \<longrightarrow> heap s' x = heap s x"
      using a st by (auto split: option.splits)
    have c: "item (locals s w) = None \<longrightarrow> calls s' = calls s"
      using a st by (auto split: option.splits)
    have "\<forall>x \<in> set (queue s). heap s' x = heap s x \<and>
        (x, w + 1) \<notin> set (drop (length (calls s)) (calls s'))"
    proof
      fix x
      assume x: "x \<in> set (queue s)"
      then have "item (locals s w) \<noteq> Some x"
        using inv by (auto simp: wq_inv_def executing_ok_def)
      then show "heap s' x = heap s x \<and> (x, w + 1) \<notin> set (drop (length (calls s)) (calls s'))"
        using a st by (auto split: option.splits)
    qed
    with q h c show ?thesis by blast
  qed
  have 2: "\<not> paused s'" if "threads s \<noteq> 0 \<and> i \<noteq> nullptr \<and> AddWorkItem i s = Inr s'"
    using that by (auto simp: AddWorkItem_def Let_def split: if_splits)
  have 3: "paused s' = paused s" if "threads s = 0 \<and> AddWorkItem i s = Inr s'"
    using that by (auto simp: AddWorkItem_def Let_def split: if_splits)
  have 4: "paused (HandleBeginFrame usec s) = paused s \<and>
      calls (HandleBeginFrame usec s) =
        calls s @ map (\<lambda>i. (i, 0))
          (take (frame_count usec 0 (maxNonThreadedWorkMs s * 1000) (queue s)) (queue s))"
    if "threads s = 0"
    using that fallback_ignores_pause(1,2) by blast
  have 5: "paused s' = paused s \<and>
      calls s' = calls s @ map (\<lambda>i. (i, 0))
        (takeWhile (\<lambda>i. p \<le> priority (heap s i)) (queue s))"
    if "threads s = 0 \<and> Complete p ts s = Some s'"
    using that fallback_ignores_pause(3) by blast
  have 6: "\<not> paused (Resume s)" by (simp add: Resume_def)
  from 1 2 3 4 5 6 show ?thesis by blast
qed

theorem pause_excludes_dequeue_witness:
  "\<exists>s s' t t'. run [OpCreateThreads True 1, OpAddWorkItem 1, OpWorker 0, OpAddWorkItem 2, OpPause]
              (WorkQueue_new items_5153) = Some s \<and>
     paused s \<and> queue s = [2] \<and> ProcessItems_step 0 s = Some s' \<and> queue s' = [2] \<and>
     heap s' 2 = heap s 2 \<and> calls s' = [(1, 1)] \<and> ProcessItems_step 0 s' = None \<and>
     threads s = 1 \<and> AddWorkItem 3 s = Inr t' \<and> \<not> paused t' \<and>
     run [OpPause, OpAddWorkItem 1, OpAddWorkItem 2] (WorkQueue_new items_5153) = Some t \<and>
     threads t = 0 \<and> paused t \<and> queue t = [1, 2] \<and> calls t = [] \<and>
     paused (HandleBeginFrame timer_3ms t) \<and>
     calls (HandleBeginFrame timer_3ms t) = [(1, 0), (2, 0)] \<and>
     paused (the (Complete 2 [] t)) \<and> calls (the (Complete 2 [] t)) = [(1, 0)] \<and>
     paused (the (sum_option (AddWorkItem 3 t)))"
proof -
  define s where "s = the (run [OpCreateThreads True 1, OpAddWorkItem 1, OpWorker 0, OpAddWorkItem 2, OpPause]
              (WorkQueue_new items_5153))"
  define s' where "s' = the (ProcessItems_step 0 s)"
  define t where "t = the (run [OpPause, OpAddWorkItem 1, OpAddWorkItem 2] (WorkQueue_new items_5153))"
  define t' where "t' = the (sum_option (AddWorkItem 3 s))"
  define u where "u = the (Complete 2 [] t)"
  define v where "v = the (sum_option (AddWorkItem 3 t))"
  have r: "run [OpCreateThreads True 1, OpAddWorkItem 1, OpWorker 0, OpAddWorkItem 2, OpPause]
              (WorkQueue_new items_5153) = Some s"
    unfolding s_def by (simp add: eval_defs thread_defs items_5153_def)
  have p: "paused s" "queue s = [2]" "threads s = 1"
    unfolding s_def by (simp_all add: eval_defs thread_defs items_5153_def)
  have st: "ProcessItems_step 0 s = Some s'"
    unfolding s'_def s_def by (simp add: eval_defs thread_defs items_5153_def)
  have c: "calls s' = [(1, 1)]" "ProcessItems_step 0 s' = None"
    unfolding s'_def s_def by (simp_all add: eval_defs thread_defs items_5153_def)
  have ad: "AddWorkItem 3 s = Inr t'"
    unfolding t'_def s_def by (simp add: eval_defs thread_defs items_5153_def)
  have rt: "run [OpPause, OpAddWorkItem 1, OpAddWorkItem 2] (WorkQueue_new items_5153) = Some t"
    unfolding t_def by (simp add: eval_defs thread_defs items_5153_def)
  have pt: "threads t = 0" "paused t" "queue t = [1, 2]" "calls t = []"
    "maxNonThreadedWorkMs t = 5" "priority (heap t 1) = 5" "priority (heap t 2) = 1"
    unfolding t_def by (simp_all add: eval_defs thread_defs items_5153_def)
  have cu: "Complete 2 [] t = Some u"
    unfolding u_def using pt(1) by (simp add: Complete_def)
  have av: "AddWorkItem 3 t = Inr v"
    unfolding v_def t_def by (simp add: eval_defs thread_defs items_5153_def)
  have "reachable s \<and> paused s \<and> ProcessItems_step 0 s = Some s'"
    using reachableI [OF r] p st by simp
  with pause_excludes_dequeue [of s 0 s'] have "queue s' = queue s"
    "\<forall>x \<in> set (queue s). heap s' x = heap s x \<and> (x, 0 + 1) \<notin> set (drop (length (calls s)) (calls s'))"
    by blast+
  then have w1: "queue s' = [2]" "heap s' 2 = heap s 2" using p(2) by simp_all
  have "threads s \<noteq> 0 \<and> (3::nat) \<noteq> nullptr \<and> AddWorkItem 3 s = Inr t'"
    using p(3) ad by (simp add: nullptr_def)
  with pause_excludes_dequeue [of s 0 t' 3] have w2: "\<not> paused t'" by blast
  have "threads t = 0 \<and> AddWorkItem 3 t = Inr v" using pt(1) av by simp
  with pause_excludes_dequeue [of t 0 v 3] have "paused v = paused t" by blast
  then have w3: "paused (the (sum_option (AddWorkItem 3 t)))" using pt(2) by (simp add: v_def)
  have fc: "frame_count timer_3ms 0 (maxNonThreadedWorkMs t * 1000) (queue t) = 2"
    by (simp add: pt timer_3ms_def)
  from pause_excludes_dequeue [of t 0 u 3 timer_3ms 2 "[]"] pt(1)
  have "paused (HandleBeginFrame timer_3ms t) = paused t \<and>
      calls (HandleBeginFrame timer_3ms t) =
        calls t @ map (\<lambda>i. (i, 0))
          (take (frame_count timer_3ms 0 (maxNonThreadedWorkMs t * 1000) (queue t)) (queue t))"
    by blast
  then have w4: "paused (HandleBeginFrame timer_3ms t)"
    "calls (HandleBeginFrame timer_3ms t) = [(1, 0), (2, 0)]"
    unfolding fc using pt by simp_all
  have "threads t = 0 \<and> Complete 2 [] t = Some u" using pt(1) cu by simp
  with pause_excludes_dequeue [of t 0 u 3 timer_3ms 2 "[]"]
  have "paused u = paused t \<and>
      calls u = calls t @ map (\<lambda>i. (i, 0)) (takeWhile (\<lambda>i. 2 \<le> priority (heap t i)) (queue t))"
    by blast
  then have w5: "paused (the (Complete 2 [] t))" "calls (the (Complete 2 [] t)) = [(1, 0)]"
    using pt by (simp_all add: u_def word_le_nat_alt)
  from r p st c ad rt pt(1-4) w1 w2 w3 w4 w5 show ?thesis by blast
qed

end
